theory Spec2Isabelle
  imports Main "HOL-Library.AList"
begin

section \<open>Data model of \<open>src/structures/Graph.ts\<close>\<close>

text \<open>
  Node data is an object with a numeric \<open>value\<close> field. The adjacency table is keyed by the
  object itself (reference identity), the traversals and the shortest-path engine key their
  sets and maps by \<open>value\<close>. A node handle is therefore a pair of the object's reference and
  its \<open>value\<close>: two handles are the same map key exactly when they are the same object.
  Numbers are modelled as integers, with \<open>+Infinity\<close> added where the code uses it
  (distances); rounding and NaN are outside the model.
\<close>

datatype node = Node (node_ref: nat) (node_value: int)

datatype GraphEdge = GraphEdge (target: node) (weight: "int option")

datatype number = Fin int | Infinity

text \<open>
  The comparison \<open>a < b\<close> of two numbers, and \<open>d + weight\<close> for a distance \<open>d\<close> and a finite
  weight. \<open>number\<close> is a linear order with \<open>Infinity\<close> on top.
\<close>

fun num_less :: "number \<Rightarrow> number \<Rightarrow> bool" where
  "num_less (Fin a) (Fin b) = (a < b)"
| "num_less (Fin a) Infinity = True"
| "num_less Infinity b = False"

fun num_add :: "number \<Rightarrow> int \<Rightarrow> number" where
  "num_add (Fin a) w = Fin (a + w)"
| "num_add Infinity w = Infinity"

instantiation number :: linorder
begin

definition less_number :: "number \<Rightarrow> number \<Rightarrow> bool" where
  "less_number a b = num_less a b"

definition less_eq_number :: "number \<Rightarrow> number \<Rightarrow> bool" where
  "less_eq_number a b = (a = b \<or> num_less a b)"

instance
proof
  fix x y z :: number
  show "(x < y) = (x \<le> y \<and> \<not> y \<le> x)"
    by (cases x; cases y) (auto simp: less_number_def less_eq_number_def)
  show "x \<le> x"
    by (simp add: less_eq_number_def)
  show "x \<le> y \<Longrightarrow> y \<le> z \<Longrightarrow> x \<le> z"
    by (cases x; cases y; cases z) (auto simp: less_eq_number_def)
  show "x \<le> y \<Longrightarrow> y \<le> x \<Longrightarrow> x = y"
    by (cases x; cases y) (auto simp: less_eq_number_def)
  show "x \<le> y \<or> y \<le> x"
    by (cases x; cases y) (auto simp: less_eq_number_def)
qed

end

text \<open>
  A JavaScript \<open>Map\<close> keeps its entries in insertion order: \<open>set\<close> on a new key appends,
  \<open>set\<close> on an existing key replaces the value in place. A \<open>Set\<close> likewise iterates in
  insertion order.
\<close>

type_synonym ('k, 'v) jsmap = "('k \<times> 'v) list"
type_synonym 'a jsset = "'a list"

definition Map_has :: "('k, 'v) jsmap \<Rightarrow> 'k \<Rightarrow> bool" where
  "Map_has m k = (map_of m k \<noteq> None)"

definition Map_get :: "('k, 'v) jsmap \<Rightarrow> 'k \<Rightarrow> 'v option" where
  "Map_get m k = map_of m k"

definition Map_set :: "'k \<Rightarrow> 'v \<Rightarrow> ('k, 'v) jsmap \<Rightarrow> ('k, 'v) jsmap" where
  "Map_set k v m = AList.update k v m"

definition Set_has :: "'a jsset \<Rightarrow> 'a \<Rightarrow> bool" where
  "Set_has s x = (x \<in> set s)"

definition Set_add :: "'a \<Rightarrow> 'a jsset \<Rightarrow> 'a jsset" where
  "Set_add x s = (if x \<in> set s then s else s @ [x])"

definition Set_delete :: "'a \<Rightarrow> 'a jsset \<Rightarrow> 'a jsset" where
  "Set_delete x s = removeAll x s"

text \<open>\<open>new Set(iterable)\<close>: the first occurrence of each element, in order.\<close>

definition Set_of :: "'a list \<Rightarrow> 'a jsset" where
  "Set_of xs = foldl (\<lambda>s x. Set_add x s) [] xs"

text \<open>Console output: \<open>console.log\<close> and \<open>console.error\<close> lines, in order.\<close>

datatype console_line = ConsoleLog string | ConsoleError string

text \<open>Template-literal rendering \<open>${n}\<close> of an integer.\<close>

fun show_nat :: "nat \<Rightarrow> string" where
  "show_nat n = (if n < 10 then [''0123456789'' ! n]
                 else show_nat (n div 10) @ [''0123456789'' ! (n mod 10)])"

definition show_int :: "int \<Rightarrow> string" where
  "show_int i = (if i < 0 then ''-'' @ show_nat (nat (- i)) else show_nat (nat i))"

record graph =
  adjacencyList :: "(node, GraphEdge list) jsmap"
  nodeMap :: "(int, node) jsmap"
  nodes :: "node list"

subsection \<open>Adjacency table (\<open>CommonGraphMethods\<close>)\<close>

text \<open>
  The state the constructors leave: no nodes, no edges. (\<open>Directed\<close> and \<open>Unidirected\<close> also
  log one line on creation, which no method reads.)
\<close>

definition new_graph :: graph where
  "new_graph = \<lparr>adjacencyList = [], nodeMap = [], nodes = []\<rparr>"

definition addNode :: "graph \<Rightarrow> node \<Rightarrow> graph" where
  "addNode g data =
     (if \<not> Map_has (adjacencyList g) data
      then g\<lparr>adjacencyList := Map_set data [] (adjacencyList g),
             nodeMap := Map_set (node_value data) data (nodeMap g),
             nodes := nodes g @ [data]\<rparr>
      else g)"

definition hasNode :: "graph \<Rightarrow> node \<Rightarrow> bool" where
  "hasNode g data = Map_has (adjacencyList g) data"

definition getNodes :: "graph \<Rightarrow> node list" where
  "getNodes g = nodes g"

definition getNeighbors :: "graph \<Rightarrow> node \<Rightarrow> GraphEdge list option" where
  "getNeighbors g data = Map_get (adjacencyList g) data"

text \<open>
  \<open>this.adjacencyList.get(from)!.push(edge)\<close>: the array stored under \<open>from\<close> grows in place.
  Every caller has checked \<open>hasNode(from)\<close>, so the lookup cannot miss there.
\<close>

definition push_edge :: "graph \<Rightarrow> node \<Rightarrow> GraphEdge \<Rightarrow> graph" where
  "push_edge g from edge =
     (case Map_get (adjacencyList g) from of
        Some es \<Rightarrow> g\<lparr>adjacencyList := Map_set from (es @ [edge]) (adjacencyList g)\<rparr>
      | None \<Rightarrow> g)"

subsection \<open>Edge insertion (\<open>Directed\<close>, \<open>Unidirected\<close>)\<close>

definition Directed_addEdge :: "graph \<Rightarrow> node \<Rightarrow> node \<Rightarrow> graph \<times> console_line list" where
  "Directed_addEdge g from to =
     (if \<not> hasNode g from \<or> \<not> hasNode g to
      then (g, [ConsoleError (''Cannot add directed edge: Source ('' @ show_int (node_value from)
                  @ '') or target ('' @ show_int (node_value to) @ '') node not found.'')])
      else (push_edge g from (GraphEdge to None),
            [ConsoleLog (''Added directed edge from '' @ show_int (node_value from)
                  @ '' to '' @ show_int (node_value to))]))"

definition Directed_addWeightedEdge ::
  "graph \<Rightarrow> node \<Rightarrow> node \<Rightarrow> int \<Rightarrow> graph \<times> console_line list" where
  "Directed_addWeightedEdge g from to w =
     (if \<not> hasNode g from \<or> \<not> hasNode g to
      then (g, [ConsoleError (''Cannot add directed weighted edge: Source (''
                  @ show_int (node_value from) @ '') or target ('' @ show_int (node_value to)
                  @ '') node not found.'')])
      else (push_edge g from (GraphEdge to (Some w)),
            [ConsoleLog (''Added directed weighted edge from '' @ show_int (node_value from)
                  @ '' to '' @ show_int (node_value to) @ '' with weight '' @ show_int w)]))"

definition Unidirected_addEdge :: "graph \<Rightarrow> node \<Rightarrow> node \<Rightarrow> graph \<times> console_line list" where
  "Unidirected_addEdge g from to =
     (if \<not> hasNode g from \<or> \<not> hasNode g to
      then (g, [ConsoleError (''Cannot add unidirected edge: Node with data ''
                  @ show_int (node_value from) @ '' or '' @ show_int (node_value to)
                  @ '' not found.'')])
      else (push_edge (push_edge g from (GraphEdge to None)) to (GraphEdge from None),
            [ConsoleLog (''Added unidirected edge between '' @ show_int (node_value from)
                  @ '' and '' @ show_int (node_value to))]))"

definition Unidirected_addWeightedEdge ::
  "graph \<Rightarrow> node \<Rightarrow> node \<Rightarrow> int \<Rightarrow> graph \<times> console_line list" where
  "Unidirected_addWeightedEdge g from to w =
     (if \<not> hasNode g from \<or> \<not> hasNode g to
      then (g, [ConsoleError (''Cannot add unidirected weighted edge: Node with data ''
                  @ show_int (node_value from) @ '' or '' @ show_int (node_value to)
                  @ '' not found.'')])
      else (push_edge (push_edge g from (GraphEdge to (Some w))) to (GraphEdge from (Some w)),
            [ConsoleLog (''Added unidirected weighted edge between ''
                  @ show_int (node_value from) @ '' and '' @ show_int (node_value to)
                  @ '' with weight '' @ show_int w)]))"

subsection \<open>Traversal engine (\<open>bfs\<close>, \<open>dfs\<close>)\<close>

text \<open>
  The \<open>processNode\<close> callback is modelled by its trace: the list of node data it is invoked
  on, in order. The traversals only read the graph.

  \<open>bfs_enqueue\<close> is the \<open>for (const edge of neighbors)\<close> loop of \<open>bfs\<close>; the queue array has
  its front first (\<open>push\<close> appends, \<open>shift\<close> takes the head).
\<close>

fun bfs_enqueue :: "GraphEdge list \<Rightarrow> int jsset \<Rightarrow> node list \<Rightarrow> int jsset \<times> node list" where
  "bfs_enqueue [] visited queue = (visited, queue)"
| "bfs_enqueue (edge # rest) visited queue =
     (let neighborData = target edge in
      if \<not> Set_has visited (node_value neighborData)
      then bfs_enqueue rest (Set_add (node_value neighborData) visited) (queue @ [neighborData])
      else bfs_enqueue rest visited queue)"

definition bfs_step :: "graph \<Rightarrow> int jsset \<Rightarrow> node \<Rightarrow> node list \<Rightarrow> int jsset \<times> node list" where
  "bfs_step g visited currentNodeData queue =
     (case getNeighbors g currentNodeData of
        Some neighbors \<Rightarrow> bfs_enqueue neighbors visited queue
      | None \<Rightarrow> (visited, queue))"

text \<open>
  \<open>dfs_push\<close> is the \<open>for (let i = 0; ...)\<close> loop of \<open>dfs\<close>; the stack array is kept with its
  top first (\<open>push\<close> is \<open>#\<close>, \<open>pop\<close> takes the head). \<open>dfs_step\<close> is the body of the
  \<open>while\<close> loop after the pop: the new visited set, the new stack and the callback
  invocations of this iteration.
\<close>

fun dfs_push :: "GraphEdge list \<Rightarrow> int jsset \<Rightarrow> node list \<Rightarrow> node list" where
  "dfs_push [] visited stack = stack"
| "dfs_push (neighborEdge # rest) visited stack =
     (let neighborData = target neighborEdge in
      if \<not> Set_has visited (node_value neighborData)
      then dfs_push rest visited (neighborData # stack)
      else dfs_push rest visited stack)"

definition dfs_step ::
  "graph \<Rightarrow> int jsset \<Rightarrow> node \<Rightarrow> node list \<Rightarrow> int jsset \<times> node list \<times> node list" where
  "dfs_step g visited currentNodeData stack =
     (if \<not> Set_has visited (node_value currentNodeData)
      then (let visited' = Set_add (node_value currentNodeData) visited in
            (visited',
             (case getNeighbors g currentNodeData of
                Some neighbors \<Rightarrow> dfs_push neighbors visited' stack
              | None \<Rightarrow> stack),
             [currentNodeData]))
      else (visited, stack, []))"

subsection \<open>Shortest-path engine (\<open>dijkstra\<close>)\<close>

datatype error = NegativeWeight

type_synonym distmap = "(int, number) jsmap"
type_synonym predmap = "(int, node option) jsmap"

text \<open>
  The linear scan for the unvisited value of least distance. \<open>distances.get(v)!\<close> of a
  missing key is \<open>undefined\<close>, and \<open>undefined < minDistance\<close> is false.
\<close>

fun scan_min :: "distmap \<Rightarrow> int list \<Rightarrow> int option \<Rightarrow> number \<Rightarrow> int option \<times> number" where
  "scan_min dist [] currentNodeValue minDistance = (currentNodeValue, minDistance)"
| "scan_min dist (nodeValue # rest) currentNodeValue minDistance =
     (case Map_get dist nodeValue of
        Some d \<Rightarrow>
          if d < minDistance then scan_min dist rest (Some nodeValue) d
          else scan_min dist rest currentNodeValue minDistance
      | None \<Rightarrow> scan_min dist rest currentNodeValue minDistance)"

text \<open>The weight Dijkstra gives an edge: \<open>edge.weight ?? 1\<close>.\<close>

definition edge_weight :: "GraphEdge \<Rightarrow> int" where
  "edge_weight e = (case weight e of Some x \<Rightarrow> x | None \<Rightarrow> 1)"

text \<open>
  The body of the \<open>for (const edge of neighbors)\<close> loop of \<open>dijkstra\<close>, and the loop. The
  \<open>return\<close> on a negative weight leaves the whole method: it is the \<open>Inl\<close> result. A lookup
  that misses gives \<open>undefined\<close>, which makes the comparison false.
\<close>

definition relax_edge ::
  "node \<Rightarrow> int jsset \<Rightarrow> GraphEdge \<Rightarrow> distmap \<Rightarrow> predmap \<Rightarrow> error + (distmap \<times> predmap)" where
  "relax_edge currentNode unvisited edge dist pred =
     (let neighbor = target edge;
          w = edge_weight edge in
      if w < 0 then Inl NegativeWeight
      else if Set_has unvisited (node_value neighbor)
      then (case (Map_get dist (node_value currentNode), Map_get dist (node_value neighbor)) of
              (Some dc, Some dn) \<Rightarrow>
                (let newDistance = num_add dc w in
                 if newDistance < dn
                 then Inr (Map_set (node_value neighbor) newDistance dist,
                           Map_set (node_value neighbor) (Some currentNode) pred)
                 else Inr (dist, pred))
            | _ \<Rightarrow> Inr (dist, pred))
      else Inr (dist, pred))"

fun relax ::
  "node \<Rightarrow> int jsset \<Rightarrow> GraphEdge list \<Rightarrow> distmap \<Rightarrow> predmap \<Rightarrow> error + (distmap \<times> predmap)" where
  "relax currentNode unvisited [] dist pred = Inr (dist, pred)"
| "relax currentNode unvisited (edge # rest) dist pred =
     (case relax_edge currentNode unvisited edge dist pred of
        Inl e \<Rightarrow> Inl e
      | Inr (dist', pred') \<Rightarrow> relax currentNode unvisited rest dist' pred')"

text \<open>One iteration of \<open>while (unvisited.size > 0)\<close>, entered with a non-empty set.\<close>

datatype iteration = Next "int jsset" distmap predmap | Break | Abort error

definition dijkstra_iteration :: "graph \<Rightarrow> int jsset \<Rightarrow> distmap \<Rightarrow> predmap \<Rightarrow> iteration" where
  "dijkstra_iteration g unvisited dist pred =
     (case scan_min dist unvisited None Infinity of
        (None, minDistance) \<Rightarrow> Break
      | (Some currentNodeValue, minDistance) \<Rightarrow>
          if minDistance = Infinity then Break
          else (let unvisited' = Set_delete currentNodeValue unvisited in
                case Map_get (nodeMap g) currentNodeValue of
                  None \<Rightarrow> Next unvisited' dist pred
                | Some currentNode \<Rightarrow>
                    (case getNeighbors g currentNode of
                       None \<Rightarrow> Next unvisited' dist pred
                     | Some neighbors \<Rightarrow>
                         (case relax currentNode unvisited' neighbors dist pred of
                            Inl e \<Rightarrow> Abort e
                          | Inr (dist', pred') \<Rightarrow> Next unvisited' dist' pred'))))"

subsection \<open>The loops and their termination\<close>

text \<open>
  The values of all edge targets stored in the adjacency table: a finite set, which bounds
  what the traversals can add to their visited sets.
\<close>

definition target_values :: "graph \<Rightarrow> int set" where
  "target_values g = node_value ` target ` (\<Union>(set ` snd ` set (adjacencyList g)))"

text \<open>\<open>while (queue.length > 0)\<close> of \<open>bfs\<close>: the result is the trace of \<open>processNode\<close>.\<close>

function bfs_loop :: "graph \<Rightarrow> int jsset \<Rightarrow> node list \<Rightarrow> node list" where
  "bfs_loop g visited [] = []"
| "bfs_loop g visited (currentNodeData # queue) =
     currentNodeData #
       (case bfs_step g visited currentNodeData queue of
          (visited', queue') \<Rightarrow> bfs_loop g visited' queue')"
  by pat_completeness auto

text \<open>\<open>while (stack.length > 0)\<close> of \<open>dfs\<close>.\<close>

function dfs_loop :: "graph \<Rightarrow> int jsset \<Rightarrow> node list \<Rightarrow> node list" where
  "dfs_loop g visited [] = []"
| "dfs_loop g visited (currentNodeData # stack) =
     (case dfs_step g visited currentNodeData stack of
        (visited', stack', out) \<Rightarrow> out @ dfs_loop g visited' stack')"
  by pat_completeness auto

text \<open>
  \<open>while (unvisited.size > 0)\<close> of \<open>dijkstra\<close>: \<open>Inr\<close> the maps when the loop ends or breaks,
  \<open>Inl\<close> when the method returns from inside the loop.
\<close>

function dijkstra_loop ::
  "graph \<Rightarrow> int jsset \<Rightarrow> distmap \<Rightarrow> predmap \<Rightarrow> error + (distmap \<times> predmap)" where
  "dijkstra_loop g unvisited dist pred =
     (if unvisited = [] then Inr (dist, pred)
      else (case dijkstra_iteration g unvisited dist pred of
              Next unvisited' dist' pred' \<Rightarrow> dijkstra_loop g unvisited' dist' pred'
            | Break \<Rightarrow> Inr (dist, pred)
            | Abort e \<Rightarrow> Inl e))"
  by pat_completeness auto


lemma finite_target_values: "finite (target_values g)"
  by (simp add: target_values_def)

lemma target_in_target_values:
  "getNeighbors g u = Some es \<Longrightarrow> e \<in> set es \<Longrightarrow> node_value (target e) \<in> target_values g"
  unfolding getNeighbors_def Map_get_def target_values_def
  by (force dest: map_of_SomeD)

lemma set_Set_add: "set (Set_add x s) = insert x (set s)"
  by (auto simp: Set_add_def)

lemma bfs_enqueue_measure:
  assumes "finite T" "node_value ` target ` set es \<subseteq> T"
  shows "card (T - set (fst (bfs_enqueue es visited queue))) + length (snd (bfs_enqueue es visited queue))
         = card (T - set visited) + length queue"
  using assms(2)
proof (induction es arbitrary: visited queue)
  case Nil
  then show ?case by simp
next
  case (Cons e es)
  show ?case
  proof (cases "node_value (target e) \<in> set visited")
    case True
    with Cons show ?thesis by (simp add: Set_has_def Let_def)
  next
    case False
    from Cons.prems have inT: "node_value (target e) \<in> T" by simp
    have "card (T - insert (node_value (target e)) (set visited)) + 1 = card (T - set visited)"
    proof -
      have "T - insert (node_value (target e)) (set visited) = (T - set visited) - {node_value (target e)}"
        by auto
      moreover have "node_value (target e) \<in> T - set visited" using inT False by simp
      moreover have "finite (T - set visited)" using assms(1) by simp
      ultimately show ?thesis
        by (metis One_nat_def Suc_pred add.right_neutral add_Suc_right card_Diff_singleton card_gt_0_iff empty_iff)
    qed
    with Cons False show ?thesis
      by (simp add: Set_has_def set_Set_add Let_def)
  qed
qed

lemma bfs_step_measure:
  "card (target_values g - set (fst (bfs_step g visited cur queue)))
     + length (snd (bfs_step g visited cur queue))
   = card (target_values g - set visited) + length queue"
proof (cases "getNeighbors g cur")
  case None
  then show ?thesis by (simp add: bfs_step_def)
next
  case (Some es)
  have "node_value ` target ` set es \<subseteq> target_values g"
    using target_in_target_values[OF Some] by auto
  from bfs_enqueue_measure[OF finite_target_values this] Some
  show ?thesis by (simp add: bfs_step_def)
qed

lemma bfs_loop_total: "All bfs_loop_dom"
proof (relation "measure (\<lambda>(g, visited, queue). card (target_values g - set visited) + length queue)")
  show "wf (measure (\<lambda>(g, visited, queue). card (target_values g - set visited) + length queue))"
    by simp
next
  fix g visited currentNodeData queue x y
  assume "(x, y) = bfs_step g visited currentNodeData queue"
  then have "x = fst (bfs_step g visited currentNodeData queue)"
    "y = snd (bfs_step g visited currentNodeData queue)"
    by (metis fst_conv, metis snd_conv)
  with bfs_step_measure[of g visited currentNodeData queue]
  show "((g, x, y), g, visited, currentNodeData # queue)
        \<in> measure (\<lambda>(g, visited, queue). card (target_values g - set visited) + length queue)"
    by (simp add: case_prod_beta)
qed

lemma set_dfs_push:
  "set (dfs_push es visited stack) \<subseteq> set stack \<union> target ` set es"
proof (induction es arbitrary: stack)
  case Nil
  then show ?case by simp
next
  case (Cons e es)
  from Cons[of stack] Cons[of "target e # stack"] show ?case
    by (auto simp: Let_def)
qed

lemma dfs_step_measure:
  assumes "dfs_step g visited cur stack = (visited', stack', out)"
  shows "card ((target_values g \<union> node_value ` set stack') - set visited')
           < card ((target_values g \<union> node_value ` set (cur # stack)) - set visited)
         \<or> (card ((target_values g \<union> node_value ` set stack') - set visited')
              = card ((target_values g \<union> node_value ` set (cur # stack)) - set visited)
            \<and> length stack' < length (cur # stack))"
proof (cases "node_value cur \<in> set visited")
  case True
  with assms have "visited' = visited" "stack' = stack"
    by (auto simp: dfs_step_def Set_has_def)
  moreover have "(target_values g \<union> node_value ` set (cur # stack)) - set visited
       = (target_values g \<union> node_value ` set stack) - set visited"
    using True by auto
  ultimately show ?thesis by simp
next
  case False
  with assms have v': "set visited' = insert (node_value cur) (set visited)"
    by (auto simp: dfs_step_def Set_has_def Let_def set_Set_add)
  have "node_value ` set stack' \<subseteq> target_values g \<union> node_value ` set stack"
  proof (cases "getNeighbors g cur")
    case None
    with assms False show ?thesis by (auto simp: dfs_step_def Set_has_def Let_def)
  next
    case (Some es)
    with assms False have "stack' = dfs_push es (Set_add (node_value cur) visited) stack"
      by (auto simp: dfs_step_def Set_has_def Let_def)
    with set_dfs_push[of es "Set_add (node_value cur) visited" stack]
      target_in_target_values[OF Some]
    show ?thesis by auto
  qed
  with v' False have "(target_values g \<union> node_value ` set stack') - set visited'
      \<subset> (target_values g \<union> node_value ` set (cur # stack)) - set visited"
    by auto
  moreover have "finite ((target_values g \<union> node_value ` set (cur # stack)) - set visited)"
    using finite_target_values by simp
  ultimately show ?thesis by (simp add: psubset_card_mono)
qed

lemma dfs_loop_total: "All dfs_loop_dom"
proof (relation "measures [\<lambda>(g, visited, stack). card ((target_values g \<union> node_value ` set stack) - set visited), \<lambda>(g, visited, stack). length stack]")
  show "wf (measures [\<lambda>(g, visited, stack). card ((target_values g \<union> node_value ` set stack) - set visited), \<lambda>(g, visited, stack). length stack])"
    by simp
next
  fix g visited currentNodeData stack x y xa ya
  assume "(x, y) = dfs_step g visited currentNodeData stack" "(xa, ya) = y"
  then have "dfs_step g visited currentNodeData stack = (x, xa, ya)" by simp
  from dfs_step_measure[OF this]
  show "((g, x, xa), g, visited, currentNodeData # stack)
        \<in> measures [\<lambda>(g, visited, stack). card ((target_values g \<union> node_value ` set stack) - set visited), \<lambda>(g, visited, stack). length stack]"
    by auto
qed

lemma scan_min_mem:
  "scan_min dist xs c m = (Some v, m') \<Longrightarrow> c = Some v \<or> v \<in> set xs"
  by (induction xs arbitrary: c m) (auto simp: split: option.splits if_splits)

lemma dijkstra_iteration_Next:
  assumes "dijkstra_iteration g unvisited dist pred = Next unvisited' dist' pred'"
  shows "\<exists>v \<in> set unvisited. unvisited' = Set_delete v unvisited"
proof -
  from assms obtain v m where sm: "scan_min dist unvisited None Infinity = (Some v, m)"
    and u': "unvisited' = Set_delete v unvisited"
    by (auto simp: dijkstra_iteration_def Let_def split: prod.splits option.splits if_splits sum.splits)
  from scan_min_mem[OF sm] have "v \<in> set unvisited" by simp
  with u' show ?thesis by blast
qed

lemma length_Set_delete: "v \<in> set s \<Longrightarrow> length (Set_delete v s) < length s"
  unfolding Set_delete_def
  by (metis length_removeAll_less)

lemma dijkstra_loop_total: "All dijkstra_loop_dom"
proof (relation "measure (\<lambda>(g, unvisited, dist, pred). length unvisited)")
  show "wf (measure (\<lambda>(g, unvisited, dist, pred). length unvisited))" by simp
next
  fix g unvisited dist pred x11 x12 x13
  assume "dijkstra_iteration g unvisited dist pred = Next x11 x12 x13"
  from dijkstra_iteration_Next[OF this] length_Set_delete
  show "((g, x11, x12, x13), g, unvisited, dist, pred)
        \<in> measure (\<lambda>(g, unvisited, dist, pred). length unvisited)"
    by auto
qed

termination bfs_loop by (rule bfs_loop_total)
termination dfs_loop by (rule dfs_loop_total)
termination dijkstra_loop by (rule dijkstra_loop_total)


subsection \<open>The public methods\<close>

definition bfs :: "graph \<Rightarrow> node \<Rightarrow> node list \<times> console_line list" where
  "bfs g startNodeData =
     (if \<not> hasNode g startNodeData
      then ([], [ConsoleError (''BFS failed: Start node with data ''
                   @ show_int (node_value startNodeData) @ '' not found.'')])
      else (bfs_loop g (Set_add (node_value startNodeData) []) [startNodeData], []))"

definition dfs :: "graph \<Rightarrow> node \<Rightarrow> node list \<times> console_line list" where
  "dfs g startNodeData =
     (if \<not> hasNode g startNodeData
      then ([], [ConsoleError (''DFS failed: Start node with data ''
                   @ show_int (node_value startNodeData) @ '' not found.'')])
      else (dfs_loop g [] [startNodeData], []))"

record dijkstra_result =
  distances :: distmap
  predecessors :: predmap

text \<open>The initialisation loop \<open>for (const node of this.nodes)\<close>, one map at a time.\<close>

definition init_distances :: "node list \<Rightarrow> distmap" where
  "init_distances ns = foldl (\<lambda>dist n. Map_set (node_value n) Infinity dist) [] ns"

definition init_predecessors :: "node list \<Rightarrow> predmap" where
  "init_predecessors ns = foldl (\<lambda>pred n. Map_set (node_value n) None pred) [] ns"

definition dijkstra :: "graph \<Rightarrow> node \<Rightarrow> dijkstra_result \<times> console_line list" where
  "dijkstra g startNodeData =
     (if \<not> hasNode g startNodeData
      then (\<lparr>distances = [], predecessors = []\<rparr>,
            [ConsoleError (''Dijkstra failed: Start node with data ''
               @ show_int (node_value startNodeData) @ '' not found.'')])
      else (let unvisited = Set_of (map node_value (nodes g));
                dist = Map_set (node_value startNodeData) (Fin 0) (init_distances (nodes g));
                pred = init_predecessors (nodes g)
            in case dijkstra_loop g unvisited dist pred of
                 Inl NegativeWeight \<Rightarrow>
                   (\<lparr>distances = [], predecessors = []\<rparr>,
                    [ConsoleError
                       ''Dijkstra requires non-negative edge weights. Found negative weight.''])
               | Inr (dist', pred') \<Rightarrow> (\<lparr>distances = dist', predecessors = pred'\<rparr>, [])))"

subsection \<open>Graphs that the interface can build, and reachability\<close>

text \<open>
  \<open>built g\<close>: \<open>g\<close> is the state of a graph object after some sequence of \<open>addNode\<close>,
  \<open>addEdge\<close> and \<open>addWeightedEdge\<close> calls on a new graph. Nothing else writes the fields.
\<close>

inductive built :: "graph \<Rightarrow> bool" where
  built_new: "built new_graph"
| built_addNode: "built g \<Longrightarrow> built (addNode g data)"
| built_Directed_addEdge: "built g \<Longrightarrow> built (fst (Directed_addEdge g a b))"
| built_Directed_addWeightedEdge: "built g \<Longrightarrow> built (fst (Directed_addWeightedEdge g a b w))"
| built_Unidirected_addEdge: "built g \<Longrightarrow> built (fst (Unidirected_addEdge g a b))"
| built_Unidirected_addWeightedEdge:
    "built g \<Longrightarrow> built (fst (Unidirected_addWeightedEdge g a b w))"

text \<open>
  The data-model invariant of a graph: the \<open>value\<close> of a node is unique among the nodes
  present.
\<close>

definition unique_values :: "graph \<Rightarrow> bool" where
  "unique_values g = distinct (map node_value (getNodes g))"

text \<open>
  The targets of the outgoing edges of a node, the edge relation, and the nodes reachable
  from a start node along outgoing edges (its component).
\<close>

definition successors :: "graph \<Rightarrow> node \<Rightarrow> node set" where
  "successors g u = (case getNeighbors g u of Some es \<Rightarrow> target ` set es | None \<Rightarrow> {})"

definition reachable :: "graph \<Rightarrow> node \<Rightarrow> node set" where
  "reachable g s = {v. (s, v) \<in> {(u, v). v \<in> successors g u}\<^sup>*}"

subsection \<open>Predicates used in the proofs\<close>

text \<open>
  What every built graph satisfies: the adjacency table has exactly the registered nodes as
  keys, every edge points at a registered node, and \<open>nodeMap\<close> sends the value of every
  registered node to a registered node of that value.
\<close>

definition valid_graph :: "graph \<Rightarrow> bool" where
  "valid_graph g =
     ((\<forall>n. hasNode g n = (n \<in> set (nodes g)))
      \<and> (\<forall>u es e. getNeighbors g u = Some es \<longrightarrow> e \<in> set es \<longrightarrow> target e \<in> set (nodes g))
      \<and> (\<forall>v n. Map_get (nodeMap g) v = Some n \<longrightarrow> n \<in> set (nodes g) \<and> node_value n = v)
      \<and> (\<forall>n \<in> set (nodes g). Map_has (nodeMap g) (node_value n)))"

text \<open>
  The state at the head of \<open>while (unvisited.size > 0)\<close> after \<open>n\<close> complete iterations, when
  the loop runs that long.
\<close>

fun dijkstra_after ::
  "nat \<Rightarrow> graph \<Rightarrow> int jsset \<Rightarrow> distmap \<Rightarrow> predmap \<Rightarrow> (int jsset \<times> distmap \<times> predmap) option" where
  "dijkstra_after 0 g unvisited dist pred = Some (unvisited, dist, pred)"
| "dijkstra_after (Suc n) g unvisited dist pred =
     (if unvisited = [] then None
      else (case dijkstra_iteration g unvisited dist pred of
              Next unvisited' dist' pred' \<Rightarrow> dijkstra_after n g unvisited' dist' pred'
            | Break \<Rightarrow> None
            | Abort e \<Rightarrow> None))"

text \<open>
  What one pass of the enqueue loop of \<open>bfs\<close> does: the queue grows by \<open>new\<close>, nodes among
  the candidates whose values were not visited and are pairwise distinct; exactly their
  values join the visited set; afterwards the value of every candidate is visited.
\<close>

definition enqueued_new :: "node list \<Rightarrow> int jsset \<Rightarrow> node set \<Rightarrow> int jsset \<times> node list \<Rightarrow> node list \<Rightarrow> bool" where
  "enqueued_new queue visited cands r new =
     (snd r = queue @ new
      \<and> distinct (map node_value new)
      \<and> (\<forall>n \<in> set new. node_value n \<notin> set visited)
      \<and> set new \<subseteq> cands
      \<and> set (fst r) = set visited \<union> node_value ` set new
      \<and> (\<forall>c \<in> cands. node_value c \<in> set (fst r)))"

text \<open>
  The distance recorded for a value, read as \<open>Infinity\<close> where the map has no entry.
\<close>

definition dist_at :: "distmap \<Rightarrow> int \<Rightarrow> number" where
  "dist_at d v = (case Map_get d v of Some x \<Rightarrow> x | None \<Rightarrow> Infinity)"

text \<open>
  The invariant of the loop of \<open>dijkstra\<close> from start node \<open>s\<close>, at the head of an iteration
  with unvisited set \<open>U\<close>: every node has an entry in both maps; the unvisited values are
  values of nodes; the start has distance 0 and no distance is negative; a node that is not
  reachable from \<open>s\<close> has distance \<open>Infinity\<close> and predecessor \<open>null\<close>; a visited node is no
  farther than any unvisited value; and every outgoing edge of a visited node is relaxed.
\<close>

definition dijkstra_inv :: "graph \<Rightarrow> node \<Rightarrow> int jsset \<Rightarrow> distmap \<Rightarrow> predmap \<Rightarrow> bool" where
  "dijkstra_inv g s U d p =
     ((\<forall>n \<in> set (nodes g). Map_has d (node_value n) \<and> Map_has p (node_value n))
      \<and> set U \<subseteq> node_value ` set (nodes g)
      \<and> dist_at d (node_value s) = Fin 0
      \<and> (\<forall>v. Fin 0 \<le> dist_at d v)
      \<and> (\<forall>n \<in> set (nodes g). n \<notin> reachable g s \<longrightarrow>
            dist_at d (node_value n) = Infinity \<and> Map_get p (node_value n) = Some None)
      \<and> (\<forall>n \<in> set (nodes g). \<forall>w \<in> set U. node_value n \<notin> set U \<longrightarrow>
            dist_at d (node_value n) \<le> dist_at d w)
      \<and> (\<forall>n \<in> set (nodes g). node_value n \<notin> set U \<longrightarrow>
            (\<forall>es e. getNeighbors g n = Some es \<longrightarrow> e \<in> set es \<longrightarrow>
               dist_at d (node_value (target e))
                 \<le> num_add (dist_at d (node_value n)) (edge_weight e))))"

subsection \<open>The graphs of the test scenarios\<close>

definition node_A :: node where "node_A = Node 1 10"
definition node_B :: node where "node_B = Node 2 20"
definition node_C :: node where "node_C = Node 3 30"
definition node_D :: node where "node_D = Node 4 40"
definition node_E :: node where "node_E = Node 5 50"

definition five_nodes :: graph where
  "five_nodes = foldl addNode new_graph [node_A, node_B, node_C, node_D, node_E]"

text \<open>
  The weighted undirected graph of the Dijkstra scenario: A-B 4, A-C 2, B-E 3, B-D 2,
  C-D 4, C-E 5, D-E 1.
\<close>

definition weighted_scenario :: graph where
  "weighted_scenario =
     foldl (\<lambda>g (a, b, w). fst (Unidirected_addWeightedEdge g a b w)) five_nodes
       [(node_A, node_B, 4), (node_A, node_C, 2), (node_B, node_E, 3), (node_B, node_D, 2),
        (node_C, node_D, 4), (node_C, node_E, 5), (node_D, node_E, 1)]"

text \<open>The undirected traversal graph of the tests: A-B, A-C, B-D, C-D, D-E.\<close>

definition traversal_scenario :: graph where
  "traversal_scenario =
     foldl (\<lambda>g (a, b). fst (Unidirected_addEdge g a b)) five_nodes
       [(node_A, node_B), (node_A, node_C), (node_B, node_D), (node_C, node_D),
        (node_D, node_E)]"

text \<open>A directed graph with the single edge A to B of weight -5.\<close>

definition negative_scenario :: graph where
  "negative_scenario =
     fst (Directed_addWeightedEdge (addNode (addNode new_graph node_A) node_B) node_A node_B (- 5))"

text \<open>
  A directed graph with the edges A to B of weight 1 and B to A of weight -1: when B is
  processed, the target A of its negative edge is already visited.
\<close>

definition back_edge_scenario :: graph where
  "back_edge_scenario =
     fst (Directed_addWeightedEdge
           (fst (Directed_addWeightedEdge (addNode (addNode new_graph node_A) node_B)
                   node_A node_B 1))
           node_B node_A (- 1))"

text \<open>A directed graph with the edge A to B of weight 3 and a third node C without edges.\<close>

definition unreachable_scenario :: graph where
  "unreachable_scenario =
     fst (Directed_addWeightedEdge
            (addNode (addNode (addNode new_graph node_A) node_B) node_C) node_A node_B 3)"

text \<open>
  Two graphs that break the unique-value invariant: X and Y are different objects with the
  same \<open>value\<close> 70. In the first, X has an edge to Y. In the second, Y has an edge of weight
  1 to Z and X has no edge at all.
\<close>

definition node_X :: node where "node_X = Node 7 70"
definition node_Y :: node where "node_Y = Node 8 70"
definition node_Z :: node where "node_Z = Node 9 90"

definition duplicate_traversal_scenario :: graph where
  "duplicate_traversal_scenario =
     fst (Directed_addEdge (addNode (addNode new_graph node_X) node_Y) node_X node_Y)"

definition duplicate_dijkstra_scenario :: graph where
  "duplicate_dijkstra_scenario =
     fst (Directed_addWeightedEdge
            (addNode (addNode (addNode new_graph node_X) node_Y) node_Z) node_Y node_Z 1)"

section \<open>Verified properties\<close>

subsection \<open>Maps, sets and the node registry\<close>

lemma map_of_Map_set: "map_of (Map_set k v m) = (map_of m)(k \<mapsto> v)"
  by (simp add: Map_set_def update_conv')

lemma set_Set_of_aux: "set (foldl (\<lambda>s x. Set_add x s) s0 xs) = set s0 \<union> set xs"
  by (induction xs arbitrary: s0) (auto simp: set_Set_add)

lemma distinct_Set_add: "distinct s \<Longrightarrow> distinct (Set_add x s)"
  by (simp add: Set_add_def)

lemma distinct_Set_of_aux: "distinct s0 \<Longrightarrow> distinct (foldl (\<lambda>s x. Set_add x s) s0 xs)"
  by (induction xs arbitrary: s0) (auto simp: distinct_Set_add)

lemma set_Set_of: "set (Set_of xs) = set xs"
  by (simp add: Set_of_def set_Set_of_aux)

lemma distinct_Set_of: "distinct (Set_of xs)"
  by (simp add: Set_of_def distinct_Set_of_aux)

lemma hasNode_addNode: "hasNode (addNode g d) x = (hasNode g x \<or> x = d)"
  by (auto simp: addNode_def hasNode_def Map_has_def map_of_Map_set)

lemma hasNode_foldl_addNode: "hasNode (foldl addNode g xs) x = (hasNode g x \<or> x \<in> set xs)"
  by (induction xs arbitrary: g) (auto simp: hasNode_addNode)

lemma hasNode_new_graph: "\<not> hasNode new_graph x"
  by (simp add: hasNode_def new_graph_def Map_has_def)

lemma nodes_addNode:
  "(\<forall>n. hasNode g n = (n \<in> set (nodes g))) \<Longrightarrow> nodes (addNode g d) = Set_add d (nodes g)"
  by (auto simp: addNode_def Set_add_def hasNode_def)

lemma nodes_foldl_addNode:
  "(\<forall>n. hasNode g n = (n \<in> set (nodes g)))
   \<Longrightarrow> nodes (foldl addNode g xs) = foldl (\<lambda>s x. Set_add x s) (nodes g) xs"
proof (induction xs arbitrary: g)
  case Nil
  then show ?case by simp
next
  case (Cons d xs)
  have "\<forall>n. hasNode (addNode g d) n = (n \<in> set (nodes (addNode g d)))"
    using Cons.prems by (auto simp: hasNode_addNode nodes_addNode set_Set_add)
  from Cons.IH[OF this] Cons.prems show ?case
    by (simp add: nodes_addNode)
qed

lemma addNode_present: "hasNode g x \<Longrightarrow> addNode g x = g"
  by (simp add: addNode_def hasNode_def)

text \<open>
  C7. After any sequence of \<open>addNode\<close> calls on a fresh graph, \<open>hasNode\<close> is true exactly for
  the handles that were passed to \<open>addNode\<close> (on any graph: exactly for those and the ones
  present before); \<open>getNodes\<close> lists each added handle once, in the order of its first
  insertion; and \<open>addNode\<close> of a handle that is present returns the graph unchanged.
\<close>

theorem addNode_hasNode_exact:
  "hasNode (foldl addNode new_graph xs) x = (x \<in> set xs)
   \<and> hasNode (foldl addNode g xs) x = (hasNode g x \<or> x \<in> set xs)
   \<and> getNodes (foldl addNode new_graph xs) = Set_of xs
   \<and> distinct (getNodes (foldl addNode new_graph xs))
   \<and> set (getNodes (foldl addNode new_graph xs)) = set xs
   \<and> (hasNode g x \<longrightarrow> addNode g x = g)"
proof -
  have "\<forall>n. hasNode new_graph n = (n \<in> set (nodes new_graph))"
    by (simp add: hasNode_new_graph) (simp add: new_graph_def)
  from nodes_foldl_addNode[OF this]
  have "getNodes (foldl addNode new_graph xs) = Set_of xs"
    by (simp add: getNodes_def Set_of_def new_graph_def)
  then show ?thesis
    by (simp add: hasNode_foldl_addNode hasNode_new_graph distinct_Set_of set_Set_of addNode_present)
qed

theorem addNode_hasNode_exact_witness:
  "hasNode (foldl addNode new_graph [Node 1 10, Node 2 20, Node 1 10]) (Node 1 10)
   \<and> \<not> hasNode (foldl addNode new_graph [Node 1 10, Node 2 20, Node 1 10]) (Node 3 10)
   \<and> getNodes (foldl addNode new_graph [Node 1 10, Node 2 20, Node 1 10]) = [Node 1 10, Node 2 20]
   \<and> hasNode (foldl addNode new_graph [Node 1 10, Node 2 20]) (Node 1 10)
   \<and> addNode (foldl addNode new_graph [Node 1 10, Node 2 20]) (Node 1 10)
       = foldl addNode new_graph [Node 1 10, Node 2 20]"
proof -
  have h: "hasNode (foldl addNode new_graph [Node 1 10, Node 2 20]) (Node 1 10)"
    by code_simp
  have s: "Set_of [Node 1 10, Node 2 20, Node 1 10] = [Node 1 10, Node 2 20]"
    by code_simp
  from addNode_hasNode_exact[of "[Node 1 10, Node 2 20, Node 1 10]" "Node 1 10" "foldl addNode new_graph [Node 1 10, Node 2 20]"]
      addNode_hasNode_exact[of "[Node 1 10, Node 2 20, Node 1 10]" "Node 3 10" "foldl addNode new_graph [Node 1 10, Node 2 20]"]
      h s
  show ?thesis by (simp del: foldl_Cons foldl_Nil)
qed

subsection \<open>Edge insertion\<close>

lemma getNeighbors_push_edge:
  "getNeighbors (push_edge g a e) n =
     (if n = a then map_option (\<lambda>es. es @ [e]) (getNeighbors g a) else getNeighbors g n)"
  by (auto simp: push_edge_def getNeighbors_def Map_get_def map_of_Map_set split: option.splits)

lemma hasNode_push_edge: "hasNode (push_edge g a e) n = hasNode g n"
  by (auto simp: push_edge_def hasNode_def Map_has_def Map_get_def map_of_Map_set
           split: option.splits)

lemma nodes_push_edge: "nodes (push_edge g a e) = nodes g"
  by (simp add: push_edge_def split: option.splits)

lemma nodeMap_push_edge: "nodeMap (push_edge g a e) = nodeMap g"
  by (simp add: push_edge_def split: option.splits)

lemma hasNode_getNeighbors: "hasNode g n = (getNeighbors g n \<noteq> None)"
  by (simp add: hasNode_def getNeighbors_def Map_has_def Map_get_def)

text \<open>
  C6. With both endpoints present, the directed \<open>addEdge\<close>/\<open>addWeightedEdge\<close> append exactly
  one edge (to \<open>b\<close>, with the given weight) to the neighbour list of \<open>a\<close> and leave the list of
  every other node as it was; the undirected ones append one edge to the list of \<open>a\<close> and one,
  of the same weight, to the list of \<open>b\<close> (both to the one list when \<open>a = b\<close>) and leave all
  other lists as they were. The node sequence never changes. With an endpoint absent, the
  graph returned is the graph given and the one console line is the error diagnostic.
\<close>

theorem addEdge_frame:
  "(hasNode g a \<and> hasNode g b \<longrightarrow>
      (\<exists>es. getNeighbors g a = Some es
         \<and> getNeighbors (fst (Directed_addEdge g a b)) a = Some (es @ [GraphEdge b None])
         \<and> getNeighbors (fst (Directed_addWeightedEdge g a b w)) a
             = Some (es @ [GraphEdge b (Some w)]))
    \<and> (\<forall>n. n \<noteq> a \<longrightarrow>
          getNeighbors (fst (Directed_addEdge g a b)) n = getNeighbors g n
        \<and> getNeighbors (fst (Directed_addWeightedEdge g a b w)) n = getNeighbors g n)
    \<and> (\<exists>es fs. getNeighbors g a = Some es \<and> getNeighbors g b = Some fs
         \<and> getNeighbors (fst (Unidirected_addEdge g a b)) a
             = Some (if a = b then es @ [GraphEdge b None, GraphEdge a None]
                     else es @ [GraphEdge b None])
         \<and> getNeighbors (fst (Unidirected_addEdge g a b)) b
             = Some (if a = b then es @ [GraphEdge b None, GraphEdge a None]
                     else fs @ [GraphEdge a None])
         \<and> getNeighbors (fst (Unidirected_addWeightedEdge g a b w)) a
             = Some (if a = b then es @ [GraphEdge b (Some w), GraphEdge a (Some w)]
                     else es @ [GraphEdge b (Some w)])
         \<and> getNeighbors (fst (Unidirected_addWeightedEdge g a b w)) b
             = Some (if a = b then es @ [GraphEdge b (Some w), GraphEdge a (Some w)]
                     else fs @ [GraphEdge a (Some w)]))
    \<and> (\<forall>n. n \<noteq> a \<and> n \<noteq> b \<longrightarrow>
          getNeighbors (fst (Unidirected_addEdge g a b)) n = getNeighbors g n
        \<and> getNeighbors (fst (Unidirected_addWeightedEdge g a b w)) n = getNeighbors g n))
   \<and> getNodes (fst (Directed_addEdge g a b)) = getNodes g
   \<and> getNodes (fst (Directed_addWeightedEdge g a b w)) = getNodes g
   \<and> getNodes (fst (Unidirected_addEdge g a b)) = getNodes g
   \<and> getNodes (fst (Unidirected_addWeightedEdge g a b w)) = getNodes g
   \<and> (\<not> hasNode g a \<or> \<not> hasNode g b \<longrightarrow>
        Directed_addEdge g a b =
          (g, [ConsoleError (''Cannot add directed edge: Source ('' @ show_int (node_value a)
                 @ '') or target ('' @ show_int (node_value b) @ '') node not found.'')])
      \<and> Directed_addWeightedEdge g a b w =
          (g, [ConsoleError (''Cannot add directed weighted edge: Source (''
                 @ show_int (node_value a) @ '') or target ('' @ show_int (node_value b)
                 @ '') node not found.'')])
      \<and> Unidirected_addEdge g a b =
          (g, [ConsoleError (''Cannot add unidirected edge: Node with data ''
                 @ show_int (node_value a) @ '' or '' @ show_int (node_value b)
                 @ '' not found.'')])
      \<and> Unidirected_addWeightedEdge g a b w =
          (g, [ConsoleError (''Cannot add unidirected weighted edge: Node with data ''
                 @ show_int (node_value a) @ '' or '' @ show_int (node_value b)
                 @ '' not found.'')]))"
proof -
  have present: "hasNode g a \<Longrightarrow> hasNode g b \<Longrightarrow> ?thesis"
  proof -
    assume a: "hasNode g a" and b: "hasNode g b"
    then obtain es fs where es: "getNeighbors g a = Some es" and fs: "getNeighbors g b = Some fs"
      by (auto simp: hasNode_getNeighbors)
    have "a = b \<Longrightarrow> fs = es" using es fs by simp
    then show ?thesis
      using a b es fs
      by (simp add: Directed_addEdge_def Directed_addWeightedEdge_def Unidirected_addEdge_def
            Unidirected_addWeightedEdge_def getNeighbors_push_edge getNodes_def nodes_push_edge)
  qed
  have absent: "\<not> hasNode g a \<or> \<not> hasNode g b \<Longrightarrow> ?thesis"
    by (auto simp: Directed_addEdge_def Directed_addWeightedEdge_def Unidirected_addEdge_def
          Unidirected_addWeightedEdge_def)
  from present absent show ?thesis by blast
qed


theorem addEdge_frame_witness:
  "getNeighbors (fst (Directed_addWeightedEdge five_nodes node_A node_B 4)) node_A
     = Some [GraphEdge node_B (Some 4)]
   \<and> getNeighbors (fst (Directed_addWeightedEdge five_nodes node_A node_B 4)) node_B = Some []
   \<and> getNeighbors (fst (Unidirected_addWeightedEdge five_nodes node_A node_B 4)) node_A
     = Some [GraphEdge node_B (Some 4)]
   \<and> getNeighbors (fst (Unidirected_addWeightedEdge five_nodes node_A node_B 4)) node_B
     = Some [GraphEdge node_A (Some 4)]
   \<and> getNeighbors (fst (Unidirected_addWeightedEdge five_nodes node_A node_B 4)) node_C = Some []
   \<and> Directed_addEdge five_nodes node_A (Node 9 99)
     = (five_nodes,
        [ConsoleError ''Cannot add directed edge: Source (10) or target (99) node not found.''])"
proof -
  have h: "hasNode five_nodes node_A" "hasNode five_nodes node_B"
    "\<not> hasNode five_nodes (Node 9 99)"
    by code_simp+
  have n: "getNeighbors five_nodes node_A = Some []" "getNeighbors five_nodes node_B = Some []"
    "getNeighbors five_nodes node_C = Some []"
    by code_simp+
  have d: "node_A \<noteq> node_B" "node_B \<noteq> node_A" "node_C \<noteq> node_A" "node_C \<noteq> node_B"
    by code_simp+
  have m: "show_int (node_value node_A) = ''10''" "show_int (node_value (Node 9 99)) = ''99''"
    by code_simp+
  from addEdge_frame[of five_nodes node_A node_B 4] addEdge_frame[of five_nodes node_A "Node 9 99" 4]
    h n d m
  show ?thesis by simp
qed

subsection \<open>Failure of the start-node precondition\<close>

text \<open>
  C5. For a start node that is not in the graph, \<open>bfs\<close> and \<open>dfs\<close> invoke the callback on no
  node, \<open>dijkstra\<close> returns two empty maps, and each emits exactly its own not-found message.
  The three methods read the graph and return no new graph state: the graph is unchanged.
\<close>

theorem start_not_found:
  "\<not> hasNode g s \<Longrightarrow>
     bfs g s = ([], [ConsoleError (''BFS failed: Start node with data ''
                       @ show_int (node_value s) @ '' not found.'')])
   \<and> dfs g s = ([], [ConsoleError (''DFS failed: Start node with data ''
                       @ show_int (node_value s) @ '' not found.'')])
   \<and> dijkstra g s = (\<lparr>distances = [], predecessors = []\<rparr>,
                     [ConsoleError (''Dijkstra failed: Start node with data ''
                       @ show_int (node_value s) @ '' not found.'')])"
  by (simp add: bfs_def dfs_def dijkstra_def)

theorem start_not_found_witness:
  "\<not> hasNode five_nodes (Node 99 999)
   \<and> bfs five_nodes (Node 99 999)
       = ([], [ConsoleError ''BFS failed: Start node with data 999 not found.''])
   \<and> dfs five_nodes (Node 99 999)
       = ([], [ConsoleError ''DFS failed: Start node with data 999 not found.''])
   \<and> dijkstra five_nodes (Node 99 999)
       = (\<lparr>distances = [], predecessors = []\<rparr>,
          [ConsoleError ''Dijkstra failed: Start node with data 999 not found.''])"
proof -
  have h: "\<not> hasNode five_nodes (Node 99 999)" by code_simp
  have m: "show_int (node_value (Node 99 999)) = ''999''" by code_simp
  from start_not_found[OF h] h m show ?thesis by simp
qed

subsection \<open>The weighted scenario\<close>

text \<open>
  C8. On the weighted undirected graph with nodes A..E of values 10..50 and edges A-B 4,
  A-C 2, B-E 3, B-D 2, C-D 4, C-E 5, D-E 1, \<open>dijkstra(A)\<close> returns the distances
  A:0, B:4, C:2, D:6, E:7; the predecessor of B and of C is A, that of D is C (one of the two
  nodes B, C that give 6) and that of E is C (2 + 5 = 7); nothing is written to the console.
\<close>

theorem dijkstra_weighted_scenario:
  "dijkstra weighted_scenario node_A =
     (\<lparr>distances = [(10, Fin 0), (20, Fin 4), (30, Fin 2), (40, Fin 6), (50, Fin 7)],
       predecessors = [(10, None), (20, Some node_A), (30, Some node_A),
                       (40, Some node_C), (50, Some node_C)]\<rparr>, [])"
  by code_simp

subsection \<open>Negative weights\<close>

lemma dijkstra_loop_after:
  "dijkstra_after n g unvisited dist pred = Some (unvisited', dist', pred')
   \<Longrightarrow> dijkstra_loop g unvisited dist pred = dijkstra_loop g unvisited' dist' pred'"
proof (induction n arbitrary: unvisited dist pred)
  case 0
  then show ?case by simp
next
  case (Suc n)
  from Suc.prems obtain u d p where
    ne: "unvisited \<noteq> []" and it: "dijkstra_iteration g unvisited dist pred = Next u d p"
    and af: "dijkstra_after n g u d p = Some (unvisited', dist', pred')"
    by (auto split: if_splits iteration.splits)
  have "dijkstra_loop g unvisited dist pred = dijkstra_loop g u d p"
    using ne it by (subst dijkstra_loop.simps) simp
  with Suc.IH[OF af] show ?case by simp
qed

lemma relax_edge_negative:
  "edge_weight e < 0 \<Longrightarrow> relax_edge cur unvisited e dist pred = Inl NegativeWeight"
  by (simp add: relax_edge_def)

lemma relax_edge_error: "relax_edge cur unvisited e dist pred = Inl err \<Longrightarrow> err = NegativeWeight"
  by (cases err) simp

lemma relax_negative:
  "e \<in> set es \<Longrightarrow> edge_weight e < 0 \<Longrightarrow> relax cur unvisited es dist pred = Inl NegativeWeight"
proof (induction es arbitrary: dist pred)
  case Nil
  then show ?case by simp
next
  case (Cons x es)
  show ?case
  proof (cases "relax_edge cur unvisited x dist pred")
    case (Inl err)
    with relax_edge_error[OF Inl] show ?thesis by simp
  next
    case (Inr r)
    obtain d1 p1 where r: "r = (d1, p1)" by (cases r)
    from Inr have "\<not> edge_weight x < 0" by (auto simp: relax_edge_negative)
    with Cons.prems have "e \<in> set es" by auto
    from Cons.IH[OF this Cons.prems(2)] Inr r show ?thesis by simp
  qed
qed

lemma scan_min_Nil_start: "scan_min dist [] None Infinity = (None, Infinity)"
  by simp

lemma dijkstra_iteration_negative:
  assumes "scan_min dist unvisited None Infinity = (Some cv, Fin m)"
    and "Map_get (nodeMap g) cv = Some cur"
    and "getNeighbors g cur = Some es"
    and "e \<in> set es" and "edge_weight e < 0"
  shows "dijkstra_iteration g unvisited dist pred = Abort NegativeWeight"
  using assms(1-3) relax_negative[OF assms(4,5)]
  by (simp add: dijkstra_iteration_def Let_def)

lemma dijkstra_loop_negative:
  assumes "scan_min dist unvisited None Infinity = (Some cv, Fin m)"
    and "Map_get (nodeMap g) cv = Some cur"
    and "getNeighbors g cur = Some es"
    and "e \<in> set es" and "edge_weight e < 0"
  shows "dijkstra_loop g unvisited dist pred = Inl NegativeWeight"
proof -
  from assms(1) have "unvisited \<noteq> []" by auto
  with dijkstra_iteration_negative[OF assms] show ?thesis
    by (subst dijkstra_loop.simps) simp
qed

text \<open>
  C2. If, at the head of any iteration the loop of \<open>dijkstra\<close> reaches, the node selected as
  current has an outgoing edge of weight below zero, then \<open>dijkstra\<close> returns two empty maps
  (whatever distances and predecessors had been recorded) and emits exactly the
  negative-weight message.
\<close>

theorem negative_weight_aborts:
  assumes "hasNode g start"
    and "dijkstra_after n g (Set_of (map node_value (nodes g)))
           (Map_set (node_value start) (Fin 0) (init_distances (nodes g)))
           (init_predecessors (nodes g)) = Some (unvisited, dist, pred)"
    and "scan_min dist unvisited None Infinity = (Some currentNodeValue, Fin m)"
    and "Map_get (nodeMap g) currentNodeValue = Some currentNode"
    and "getNeighbors g currentNode = Some neighbors"
    and "edge \<in> set neighbors" and "edge_weight edge < 0"
  shows "dijkstra g start =
           (\<lparr>distances = [], predecessors = []\<rparr>,
            [ConsoleError ''Dijkstra requires non-negative edge weights. Found negative weight.''])"
proof -
  have "dijkstra_loop g unvisited dist pred = Inl NegativeWeight"
    by (rule dijkstra_loop_negative[OF assms(3-7)])
  with dijkstra_loop_after[OF assms(2)] assms(1) show ?thesis
    by (simp add: dijkstra_def Let_def)
qed

theorem negative_weight_aborts_witness:
  "dijkstra negative_scenario node_A =
     (\<lparr>distances = [], predecessors = []\<rparr>,
      [ConsoleError ''Dijkstra requires non-negative edge weights. Found negative weight.''])"
proof -
  have h1: "hasNode negative_scenario node_A" by code_simp
  have h2: "dijkstra_after 0 negative_scenario (Set_of (map node_value (nodes negative_scenario)))
           (Map_set (node_value node_A) (Fin 0) (init_distances (nodes negative_scenario)))
           (init_predecessors (nodes negative_scenario)) = Some ([10, 20], [(10, Fin 0), (20, Infinity)], [(10, None), (20, None)])"
    by code_simp
  have h3: "scan_min [(10, Fin 0), (20, Infinity)] [10, 20] None Infinity = (Some 10, Fin 0)"
    by code_simp
  have h4: "Map_get (nodeMap negative_scenario) 10 = Some node_A" by code_simp
  have h5: "getNeighbors negative_scenario node_A = Some [GraphEdge node_B (Some (- 5))]"
    by code_simp
  have h6: "GraphEdge node_B (Some (- 5)) \<in> set [GraphEdge node_B (Some (- 5))]" by simp
  have h7: "edge_weight (GraphEdge node_B (Some (- 5))) < 0" by code_simp
  show ?thesis by (rule negative_weight_aborts[OF h1 h2 h3 h4 h5 h6 h7])
qed

text \<open>
  C9. The weight check comes before the unvisited filter: if, at the head of any iteration
  the loop of \<open>dijkstra\<close> reaches, the node being processed has an outgoing edge of negative
  weight whose target is no longer in the unvisited set, so that the edge would not be
  relaxed, then the relaxation loop still returns the error, the iteration aborts, the loop
  ends with the error, and \<open>dijkstra\<close> returns two empty maps with the negative-weight
  message.
\<close>

theorem negative_check_precedes_unvisited_filter:
  assumes "hasNode g start"
    and "dijkstra_after n g (Set_of (map node_value (nodes g)))
           (Map_set (node_value start) (Fin 0) (init_distances (nodes g)))
           (init_predecessors (nodes g)) = Some (unvisited, dist, pred)"
    and "scan_min dist unvisited None Infinity = (Some currentNodeValue, Fin m)"
    and "Map_get (nodeMap g) currentNodeValue = Some currentNode"
    and "getNeighbors g currentNode = Some neighbors"
    and "edge \<in> set neighbors" and "edge_weight edge < 0"
    and "\<not> Set_has (Set_delete currentNodeValue unvisited) (node_value (target edge))"
  shows "relax currentNode (Set_delete currentNodeValue unvisited) neighbors dist pred
           = Inl NegativeWeight
         \<and> dijkstra_iteration g unvisited dist pred = Abort NegativeWeight
         \<and> dijkstra_loop g unvisited dist pred = Inl NegativeWeight
         \<and> dijkstra g start =
             (\<lparr>distances = [], predecessors = []\<rparr>,
              [ConsoleError
                 ''Dijkstra requires non-negative edge weights. Found negative weight.''])"
proof -
  have r: "relax currentNode (Set_delete currentNodeValue unvisited) neighbors dist pred
             = Inl NegativeWeight"
    by (rule relax_negative[OF assms(6,7)])
  have i: "dijkstra_iteration g unvisited dist pred = Abort NegativeWeight"
    by (rule dijkstra_iteration_negative[OF assms(3-7)])
  have l: "dijkstra_loop g unvisited dist pred = Inl NegativeWeight"
    by (rule dijkstra_loop_negative[OF assms(3-7)])
  have "dijkstra g start =
          (\<lparr>distances = [], predecessors = []\<rparr>,
           [ConsoleError ''Dijkstra requires non-negative edge weights. Found negative weight.''])"
    using l dijkstra_loop_after[OF assms(2)] assms(1)
    by (simp add: dijkstra_def Let_def)
  with r i l show ?thesis by simp
qed

theorem negative_check_precedes_unvisited_filter_witness:
  "dijkstra_after 1 back_edge_scenario (Set_of (map node_value (nodes back_edge_scenario)))
      (Map_set (node_value node_A) (Fin 0) (init_distances (nodes back_edge_scenario)))
      (init_predecessors (nodes back_edge_scenario))
     = Some ([20], [(10, Fin 0), (20, Fin 1)], [(10, None), (20, Some node_A)])
   \<and> getNeighbors back_edge_scenario node_B = Some [GraphEdge node_A (Some (- 1))]
   \<and> \<not> Set_has (Set_delete 20 [20]) (node_value node_A)
   \<and> relax node_B (Set_delete 20 [20]) [GraphEdge node_A (Some (- 1))]
        [(10, Fin 0), (20, Fin 1)] [(10, None), (20, Some node_A)] = Inl NegativeWeight
   \<and> dijkstra_loop back_edge_scenario [20] [(10, Fin 0), (20, Fin 1)]
        [(10, None), (20, Some node_A)] = Inl NegativeWeight
   \<and> dijkstra back_edge_scenario node_A =
        (\<lparr>distances = [], predecessors = []\<rparr>,
         [ConsoleError ''Dijkstra requires non-negative edge weights. Found negative weight.''])"
proof -
  have hs: "hasNode back_edge_scenario node_A" by code_simp
  have h0: "dijkstra_after 1 back_edge_scenario (Set_of (map node_value (nodes back_edge_scenario)))
      (Map_set (node_value node_A) (Fin 0) (init_distances (nodes back_edge_scenario)))
      (init_predecessors (nodes back_edge_scenario))
     = Some ([20], [(10, Fin 0), (20, Fin 1)], [(10, None), (20, Some node_A)])"
    by code_simp
  have h1: "scan_min [(10, Fin 0), (20, Fin 1)] [20] None Infinity = (Some 20, Fin 1)"
    by code_simp
  have h2: "Map_get (nodeMap back_edge_scenario) 20 = Some node_B" by code_simp
  have h3: "getNeighbors back_edge_scenario node_B = Some [GraphEdge node_A (Some (- 1))]"
    by code_simp
  have h4: "GraphEdge node_A (Some (- 1)) \<in> set [GraphEdge node_A (Some (- 1))]" by simp
  have h5: "edge_weight (GraphEdge node_A (Some (- 1))) < 0" by code_simp
  have h6: "\<not> Set_has (Set_delete 20 [20]) (node_value (target (GraphEdge node_A (Some (- 1)))))"
    by code_simp
  from negative_check_precedes_unvisited_filter[OF hs h0 h1 h2 h3 h4 h5 h6] h0 h3 h6
  show ?thesis by simp
qed

subsection \<open>The step of depth-first search\<close>

lemma dfs_push_filter:
  "dfs_push es visited stack
     = rev (filter (\<lambda>n. \<not> Set_has visited (node_value n)) (map target es)) @ stack"
  by (induction es arbitrary: stack) (simp_all add: Let_def)

text \<open>
  C4, as the code has it. For a popped node whose value is not visited, \<open>dfs\<close> adds the value
  to the visited set, invokes the callback on the node, and pushes, in adjacency-list order,
  those targets of its outgoing edges whose value is not in the visited set then (which
  holds the popped node's value already); with the top of the stack first, the pushed
  targets appear reversed in front of the old stack. A popped node whose value is visited is
  discarded: nothing is visited or pushed. The loop continues from the state the step
  returns.
\<close>

theorem dfs_step_pushes_unvisited_targets:
  "(\<not> Set_has visited (node_value cur) \<longrightarrow>
      dfs_step g visited cur stack =
        (Set_add (node_value cur) visited,
         rev (filter (\<lambda>n. \<not> Set_has (Set_add (node_value cur) visited) (node_value n))
                (map target (case getNeighbors g cur of Some es \<Rightarrow> es | None \<Rightarrow> [])))
           @ stack,
         [cur]))
   \<and> (Set_has visited (node_value cur) \<longrightarrow> dfs_step g visited cur stack = (visited, stack, []))
   \<and> dfs_loop g visited (cur # stack) =
        (case dfs_step g visited cur stack of
           (visited', stack', out) \<Rightarrow> out @ dfs_loop g visited' stack')"
  by (simp add: dfs_step_def Let_def dfs_push_filter split: option.splits)

theorem dfs_step_pushes_unvisited_targets_witness:
  "\<not> Set_has [10] (node_value node_C)
   \<and> dfs_step traversal_scenario [10] node_C [node_B] = ([10, 30], [node_D, node_B], [node_C])
   \<and> Set_has [10, 30, 40, 50, 20] (node_value node_B)
   \<and> dfs_step traversal_scenario [10, 30, 40, 50, 20] node_B []
        = ([10, 30, 40, 50, 20], [], [])"
proof -
  have h1: "\<not> Set_has [10] (node_value node_C)" by code_simp
  have h2: "Set_has [10, 30, 40, 50, 20] (node_value node_B)" by code_simp
  have e: "Set_add (node_value node_C) [10] = [10, 30]" by code_simp
  have r: "rev (filter (\<lambda>n. \<not> Set_has [10, 30] (node_value n))
                (map target (case getNeighbors traversal_scenario node_C of
                               Some es \<Rightarrow> es | None \<Rightarrow> []))) @ [node_B]
           = [node_D, node_B]"
    by code_simp
  from dfs_step_pushes_unvisited_targets[of "[10]" node_C traversal_scenario "[node_B]"]
    dfs_step_pushes_unvisited_targets[of "[10, 30, 40, 50, 20]" node_B traversal_scenario "[]"]
    h1 h2 e r
  show ?thesis by simp
qed

text \<open>
  C4 as stated fails: \<open>dfs\<close> from A in the traversal scenario pops C with A visited and B
  below it on the stack. C has the edges to A and to D; only D is pushed, the visited
  target A is not.
\<close>

theorem dfs_step_skips_visited_target:
  "getNeighbors traversal_scenario node_C = Some [GraphEdge node_A None, GraphEdge node_D None]
   \<and> \<not> Set_has [10] (node_value node_C)
   \<and> dfs_step traversal_scenario [10] node_C [node_B] = ([10, 30], [node_D, node_B], [node_C])
   \<and> [node_D, node_B] \<noteq> rev (map target [GraphEdge node_A None, GraphEdge node_D None]) @ [node_B]"
  by code_simp

subsection \<open>Termination of the three loops\<close>

lemma bfs_enqueue_new:
  "\<exists>new. enqueued_new queue visited (target ` set es) (bfs_enqueue es visited queue) new"
proof (induction es arbitrary: visited queue)
  case Nil
  then show ?case by (simp add: enqueued_new_def)
next
  case (Cons e es)
  show ?case
  proof (cases "node_value (target e) \<in> set visited")
    case True
    from Cons.IH obtain new where
      n: "enqueued_new queue visited (target ` set es) (bfs_enqueue es visited queue) new" ..
    have eq: "bfs_enqueue (e # es) visited queue = bfs_enqueue es visited queue"
      using True by (simp add: Set_has_def Let_def)
    have "enqueued_new queue visited (target ` set (e # es)) (bfs_enqueue es visited queue) new"
      using n True unfolding enqueued_new_def by auto
    then show ?thesis unfolding eq ..
  next
    case False
    let ?v = "Set_add (node_value (target e)) visited"
    let ?q = "queue @ [target e]"
    from Cons.IH obtain new where
      n: "enqueued_new ?q ?v (target ` set es) (bfs_enqueue es ?v ?q) new" ..
    have eq: "bfs_enqueue (e # es) visited queue = bfs_enqueue es ?v ?q"
      using False by (simp add: Set_has_def Let_def)
    have "enqueued_new queue visited (target ` set (e # es)) (bfs_enqueue es ?v ?q) (target e # new)"
      using n False unfolding enqueued_new_def by (auto simp: set_Set_add)
    then show ?thesis unfolding eq ..
  qed
qed

lemma bfs_step_new:
  "\<exists>new. enqueued_new queue visited (successors g cur) (bfs_step g visited cur queue) new"
proof (cases "getNeighbors g cur")
  case None
  then have "enqueued_new queue visited (successors g cur) (bfs_step g visited cur queue) []"
    by (simp add: bfs_step_def successors_def enqueued_new_def)
  then show ?thesis ..
next
  case (Some es)
  with bfs_enqueue_new[of queue visited es] show ?thesis
    by (simp add: bfs_step_def successors_def)
qed

lemma bfs_loop_values:
  "distinct (map node_value queue) \<Longrightarrow> node_value ` set queue \<subseteq> set visited
   \<Longrightarrow> distinct (map node_value (bfs_loop g visited queue))
       \<and> node_value ` set (bfs_loop g visited queue) \<subseteq> node_value ` set queue \<union> (- set visited)"
proof (induction g visited queue rule: bfs_loop.induct)
  case (1 g visited)
  then show ?case by simp
next
  case (2 g visited cur queue)
  obtain v' q' where st: "bfs_step g visited cur queue = (v', q')" by (cases "bfs_step g visited cur queue")
  from bfs_step_new[of queue visited g cur] obtain new where
    "enqueued_new queue visited (successors g cur) (bfs_step g visited cur queue) new" ..
  with st have n:
    "q' = queue @ new" "distinct (map node_value new)"
    "node_value ` set new \<inter> set visited = {}"
    "set v' = set visited \<union> node_value ` set new"
    by (auto simp add: enqueued_new_def)
  have "node_value ` set queue \<inter> node_value ` set new = {}"
    using 2(3) n(3) by auto
  then have d: "distinct (map node_value q')"
    using 2(2) n(1,2) by simp
  have s: "node_value ` set q' \<subseteq> set v'"
    using 2(3) n by auto
  from 2(1)[OF st[symmetric] d s]
  have ih: "distinct (map node_value (bfs_loop g v' q'))"
    "node_value ` set (bfs_loop g v' q') \<subseteq> node_value ` set q' \<union> (- set v')"
    by auto
  have notin: "node_value cur \<notin> node_value ` set (bfs_loop g v' q')"
  proof
    assume "node_value cur \<in> node_value ` set (bfs_loop g v' q')"
    with ih(2) have "node_value cur \<in> node_value ` set q' \<or> node_value cur \<notin> set v'" by auto
    moreover have "node_value cur \<in> set visited" using 2(3) by simp
    moreover have "node_value cur \<notin> node_value ` set queue" using 2(2) by auto
    ultimately show False using n by auto
  qed
  have res: "bfs_loop g visited (cur # queue) = cur # bfs_loop g v' q'"
    using st by simp
  have sub: "node_value ` set (bfs_loop g v' q') \<subseteq> node_value ` set (cur # queue) \<union> (- set visited)"
  proof
    fix x assume "x \<in> node_value ` set (bfs_loop g v' q')"
    with ih(2) have "x \<in> node_value ` set q' \<or> x \<notin> set v'" by auto
    then show "x \<in> node_value ` set (cur # queue) \<union> (- set visited)"
      using n by auto
  qed
  show ?case
    unfolding res using ih(1) notin sub by auto
qed

lemma bfs_loop_length:
  "length (bfs_loop g visited queue) \<le> card (target_values g - set visited) + length queue"
proof (induction g visited queue rule: bfs_loop.induct)
  case (1 g visited)
  then show ?case by simp
next
  case (2 g visited cur queue)
  obtain v' q' where st: "bfs_step g visited cur queue = (v', q')" by (cases "bfs_step g visited cur queue")
  from 2[OF st[symmetric]] bfs_step_measure[of g visited cur queue] st
  show ?case by simp
qed

lemma length_dfs_push: "length (dfs_push es visited stack) \<le> length stack + length es"
  by (simp add: dfs_push_filter)

lemma distinct_Set_delete: "distinct s \<Longrightarrow> v \<in> set s \<Longrightarrow> length (Set_delete v s) + 1 = length s"
proof -
  assume d: "distinct s" and v: "v \<in> set s"
  from v have "0 < length s" by (rule length_pos_if_in_set)
  moreover have "length (Set_delete v s) = length s - 1"
    using d v by (simp add: Set_delete_def distinct_remove1_removeAll[symmetric] length_remove1)
  ultimately show ?thesis by simp
qed

text \<open>
  C10. The recursion of each of the three loops is well-founded on every input, so \<open>bfs\<close>,
  \<open>dfs\<close> and \<open>dijkstra\<close> return on every graph. The nodes \<open>bfs\<close> takes from its queue have
  pairwise distinct values and are at most one more than the target values of the graph; an
  iteration enqueues only nodes whose values were not visited, pairwise distinct, and marks
  exactly those. A step of \<open>dfs\<close> pushes at most one entry per outgoing edge of the popped
  node, and none when the node is visited. An iteration of \<open>dijkstra\<close> breaks, aborts, or
  continues with one value deleted from the unvisited set.
\<close>

theorem traversals_terminate:
  "bfs_loop_dom (g, visited, queue) \<and> dfs_loop_dom (g, visited, stack)
   \<and> dijkstra_loop_dom (g, unvisited, dist, pred)
   \<and> distinct (map node_value (fst (bfs g start)))
   \<and> length (fst (bfs g start)) \<le> card (target_values g) + 1
   \<and> (\<exists>new. snd (bfs_step g visited cur queue) = queue @ new
         \<and> distinct (map node_value new) \<and> node_value ` set new \<inter> set visited = {}
         \<and> set (fst (bfs_step g visited cur queue)) = set visited \<union> node_value ` set new)
   \<and> length (fst (snd (dfs_step g visited cur stack)))
        \<le> length stack + (case getNeighbors g cur of Some es \<Rightarrow> length es | None \<Rightarrow> 0)
   \<and> (Set_has visited (node_value cur) \<longrightarrow> fst (snd (dfs_step g visited cur stack)) = stack)
   \<and> (case dijkstra_iteration g unvisited dist pred of
         Next unvisited' dist' pred' \<Rightarrow>
           (\<exists>v. v \<in> set unvisited \<and> unvisited' = Set_delete v unvisited)
           \<and> length unvisited' < length unvisited
           \<and> (distinct unvisited \<longrightarrow> length unvisited' + 1 = length unvisited)
       | Break \<Rightarrow> True
       | Abort e \<Rightarrow> True)"
proof -
  have t: "bfs_loop_dom (g, visited, queue)" "dfs_loop_dom (g, visited, stack)"
    "dijkstra_loop_dom (g, unvisited, dist, pred)"
    using bfs_loop_total dfs_loop_total dijkstra_loop_total by blast+
  have b1: "distinct (map node_value (fst (bfs g start)))"
    using bfs_loop_values[of "[start]" "Set_add (node_value start) []" g]
    by (simp add: bfs_def set_Set_add)
  have b2: "length (fst (bfs g start)) \<le> card (target_values g) + 1"
  proof (cases "hasNode g start")
    case True
    have "card (target_values g - set (Set_add (node_value start) [])) \<le> card (target_values g)"
      by (rule card_mono[OF finite_target_values]) auto
    with bfs_loop_length[of g "Set_add (node_value start) []" "[start]"] True
    show ?thesis by (simp add: bfs_def)
  next
    case False
    then show ?thesis by (simp add: bfs_def)
  qed
  have b3: "\<exists>new. snd (bfs_step g visited cur queue) = queue @ new
         \<and> distinct (map node_value new) \<and> node_value ` set new \<inter> set visited = {}
         \<and> set (fst (bfs_step g visited cur queue)) = set visited \<union> node_value ` set new"
  proof -
    from bfs_step_new[of queue visited g cur] obtain new where
      "enqueued_new queue visited (successors g cur) (bfs_step g visited cur queue) new" ..
    then have "snd (bfs_step g visited cur queue) = queue @ new
         \<and> distinct (map node_value new) \<and> node_value ` set new \<inter> set visited = {}
         \<and> set (fst (bfs_step g visited cur queue)) = set visited \<union> node_value ` set new"
      by (auto simp add: enqueued_new_def)
    then show ?thesis ..
  qed
  have d1: "length (fst (snd (dfs_step g visited cur stack)))
        \<le> length stack + (case getNeighbors g cur of Some es \<Rightarrow> length es | None \<Rightarrow> 0)"
    by (simp add: dfs_step_def Let_def length_dfs_push split: option.splits)
  have d2: "Set_has visited (node_value cur) \<longrightarrow> fst (snd (dfs_step g visited cur stack)) = stack"
    by (simp add: dfs_step_def)
  have k: "(case dijkstra_iteration g unvisited dist pred of
         Next unvisited' dist' pred' \<Rightarrow>
           (\<exists>v. v \<in> set unvisited \<and> unvisited' = Set_delete v unvisited)
           \<and> length unvisited' < length unvisited
           \<and> (distinct unvisited \<longrightarrow> length unvisited' + 1 = length unvisited)
       | Break \<Rightarrow> True
       | Abort e \<Rightarrow> True)"
  proof (cases "dijkstra_iteration g unvisited dist pred")
    case (Next u d p)
    from dijkstra_iteration_Next[OF Next] obtain v where
      "v \<in> set unvisited" "u = Set_delete v unvisited" by blast
    with Next length_Set_delete[of v unvisited] distinct_Set_delete[of unvisited v]
    show ?thesis by auto
  qed simp_all
  show ?thesis by (intro conjI t b1 b2 b3 d1 d2 k)
qed


theorem traversals_terminate_witness:
  "distinct (map node_value (fst (bfs traversal_scenario node_A)))
   \<and> Set_has [10, 30, 40, 50, 20] (node_value node_B)
   \<and> fst (snd (dfs_step traversal_scenario [10, 30, 40, 50, 20] node_B [])) = []
   \<and> dijkstra_iteration weighted_scenario [10, 20, 30, 40, 50]
        [(10, Fin 0), (20, Infinity), (30, Infinity), (40, Infinity), (50, Infinity)]
        [(10, None), (20, None), (30, None), (40, None), (50, None)]
       = Next [20, 30, 40, 50]
           [(10, Fin 0), (20, Fin 4), (30, Fin 2), (40, Infinity), (50, Infinity)]
           [(10, None), (20, Some node_A), (30, Some node_A), (40, None), (50, None)]
   \<and> distinct [10, 20, 30, 40, 50 :: int]
   \<and> length [20, 30, 40, 50 :: int] + 1 = length [10, 20, 30, 40, 50 :: int]"
proof -
  have h1: "Set_has [10, 30, 40, 50, 20] (node_value node_B)" by code_simp
  have h2: "dijkstra_iteration weighted_scenario [10, 20, 30, 40, 50]
        [(10, Fin 0), (20, Infinity), (30, Infinity), (40, Infinity), (50, Infinity)]
        [(10, None), (20, None), (30, None), (40, None), (50, None)]
       = Next [20, 30, 40, 50]
           [(10, Fin 0), (20, Fin 4), (30, Fin 2), (40, Infinity), (50, Infinity)]
           [(10, None), (20, Some node_A), (30, Some node_A), (40, None), (50, None)]"
    by code_simp
  have h3: "distinct [10, 20, 30, 40, 50 :: int]" by simp
  from traversals_terminate[where g = traversal_scenario and start = node_A
      and visited = "[10, 30, 40, 50, 20]" and cur = node_B and stack = "[]"]
  have a: "distinct (map node_value (fst (bfs traversal_scenario node_A)))"
    "fst (snd (dfs_step traversal_scenario [10, 30, 40, 50, 20] node_B [])) = []"
    using h1 by simp_all
  from traversals_terminate[where g = weighted_scenario and unvisited = "[10, 20, 30, 40, 50]"
      and dist = "[(10, Fin 0), (20, Infinity), (30, Infinity), (40, Infinity), (50, Infinity)]"
      and pred = "[(10, None), (20, None), (30, None), (40, None), (50, None)]"]
  have b: "length [20, 30, 40, 50 :: int] + 1 = length [10, 20, 30, 40, 50 :: int]"
    using h2 h3 by simp
  from a b h1 h2 h3 show ?thesis by simp
qed

subsection \<open>Built graphs and reachability\<close>

lemma valid_new_graph: "valid_graph new_graph"
  by (simp add: valid_graph_def new_graph_def hasNode_def getNeighbors_def Map_has_def Map_get_def)

lemma valid_addNode: "valid_graph g \<Longrightarrow> valid_graph (addNode g d)"
  unfolding valid_graph_def
  by (auto simp: addNode_def hasNode_def getNeighbors_def Map_has_def Map_get_def map_of_Map_set
           split: if_splits)

lemma valid_push_edge:
  "valid_graph g \<Longrightarrow> target e \<in> set (nodes g) \<Longrightarrow> valid_graph (push_edge g a e)"
  unfolding valid_graph_def
  by (auto simp: hasNode_push_edge getNeighbors_push_edge nodes_push_edge nodeMap_push_edge
           split: if_splits)

lemma valid_hasNode: "valid_graph g \<Longrightarrow> hasNode g n = (n \<in> set (nodes g))"
  by (simp add: valid_graph_def)

lemma built_valid: "built g \<Longrightarrow> valid_graph g"
proof (induction rule: built.induct)
  case built_new
  show ?case by (rule valid_new_graph)
next
  case (built_addNode g data)
  then show ?case by (simp add: valid_addNode)
next
  case (built_Directed_addEdge g a b)
  then show ?case
    by (simp add: Directed_addEdge_def valid_push_edge valid_hasNode)
next
  case (built_Directed_addWeightedEdge g a b w)
  then show ?case
    by (simp add: Directed_addWeightedEdge_def valid_push_edge valid_hasNode)
next
  case (built_Unidirected_addEdge g a b)
  then show ?case
    by (simp add: Unidirected_addEdge_def valid_push_edge valid_hasNode nodes_push_edge)
next
  case (built_Unidirected_addWeightedEdge g a b w)
  then show ?case
    by (simp add: Unidirected_addWeightedEdge_def valid_push_edge valid_hasNode nodes_push_edge)
qed

lemma successors_in_nodes:
  "valid_graph g \<Longrightarrow> v \<in> successors g u \<Longrightarrow> v \<in> set (nodes g)"
  by (auto simp: valid_graph_def successors_def split: option.splits)

lemma reachable_in_nodes:
  assumes "valid_graph g" "s \<in> set (nodes g)" "v \<in> reachable g s"
  shows "v \<in> set (nodes g)"
proof -
  from assms(3) have "(s, v) \<in> {(u, v). v \<in> successors g u}\<^sup>*"
    by (simp add: reachable_def)
  then show ?thesis
    using assms(1,2) by (induction rule: rtrancl_induct) (auto dest: successors_in_nodes)
qed

lemma reachable_refl: "s \<in> reachable g s"
  by (simp add: reachable_def)

lemma reachable_step: "u \<in> reachable g s \<Longrightarrow> v \<in> successors g u \<Longrightarrow> v \<in> reachable g s"
  by (auto simp: reachable_def intro: rtrancl_into_rtrancl)

lemma reachable_closed:
  assumes "s \<in> X" and "\<And>u v. u \<in> X \<Longrightarrow> v \<in> successors g u \<Longrightarrow> v \<in> X"
  shows "reachable g s \<subseteq> X"
proof
  fix v assume "v \<in> reachable g s"
  then have "(s, v) \<in> {(u, v). v \<in> successors g u}\<^sup>*" by (simp add: reachable_def)
  then show "v \<in> X"
    using assms by (induction rule: rtrancl_induct) auto
qed

lemma unique_values_inj: "unique_values g \<Longrightarrow> inj_on node_value (set (nodes g))"
  by (simp add: unique_values_def getNodes_def distinct_map)

text \<open>The invariant of the loop of \<open>bfs\<close>, with the nodes visited so far as \<open>vs\<close>.\<close>

lemma bfs_loop_correct:
  "inj_on node_value (reachable g s)
    \<Longrightarrow> set visited = node_value ` (set vs \<union> set queue)
    \<Longrightarrow> distinct (map node_value (vs @ queue))
    \<Longrightarrow> set vs \<union> set queue \<subseteq> reachable g s
    \<Longrightarrow> s \<in> set vs \<union> set queue
    \<Longrightarrow> (\<forall>u \<in> set vs. successors g u \<subseteq> set vs \<union> set queue)
    \<Longrightarrow> distinct (vs @ bfs_loop g visited queue)
        \<and> set (vs @ bfs_loop g visited queue) = reachable g s"
proof (induction g visited queue arbitrary: vs rule: bfs_loop.induct)
  case (1 g visited)
  have "reachable g s \<subseteq> set vs"
    using 1 by (intro reachable_closed) auto
  with 1 show ?case
    by (auto simp: distinct_map)
next
  case (2 g visited cur queue)
  let ?R = "reachable g s"
  obtain v' q' where st: "bfs_step g visited cur queue = (v', q')"
    by (cases "bfs_step g visited cur queue")
  from bfs_step_new[of queue visited g cur] obtain new where
    "enqueued_new queue visited (successors g cur) (bfs_step g visited cur queue) new" ..
  with st have n: "q' = queue @ new" "distinct (map node_value new)"
    "\<forall>n \<in> set new. node_value n \<notin> set visited"
    "set new \<subseteq> successors g cur"
    "set v' = set visited \<union> node_value ` set new"
    "\<forall>c \<in> successors g cur. node_value c \<in> set v'"
    by (auto simp add: enqueued_new_def)
  have curR: "cur \<in> ?R" using 2(5) by simp
  have newR: "set new \<subseteq> ?R"
    using n(4) curR by (auto intro: reachable_step)
  have i1: "set v' = node_value ` (set (vs @ [cur]) \<union> set q')"
    using 2(3) n(1,5) by auto
  have i2: "distinct (map node_value ((vs @ [cur]) @ q'))"
  proof -
    have "\<forall>n \<in> set new. node_value n \<notin> node_value ` (set vs \<union> set (cur # queue))"
      using n(3) 2(3) by auto
    then have "node_value ` set new \<inter> node_value ` (set vs \<union> set (cur # queue)) = {}"
      by auto
    with 2(4) n(1,2) show ?thesis by (auto simp: image_Un)
  qed
  have i3: "set (vs @ [cur]) \<union> set q' \<subseteq> ?R"
    using 2(5) n(1) newR by auto
  have i4: "s \<in> set (vs @ [cur]) \<union> set q'"
    using 2(6) n(1) by auto
  have i5: "\<forall>u \<in> set (vs @ [cur]). successors g u \<subseteq> set (vs @ [cur]) \<union> set q'"
  proof
    fix u assume u: "u \<in> set (vs @ [cur])"
    show "successors g u \<subseteq> set (vs @ [cur]) \<union> set q'"
    proof (cases "u = cur")
      case False
      with u 2(7) n(1) show ?thesis by auto
    next
      case True
      show ?thesis
      proof
        fix c assume c: "c \<in> successors g u"
        with True n(6) have "node_value c \<in> set v'" by simp
        with i1 have "node_value c \<in> node_value ` (set (vs @ [cur]) \<union> set q')" by simp
        then obtain x where x: "x \<in> set (vs @ [cur]) \<union> set q'" "node_value x = node_value c"
          by (elim imageE) simp
        have "c \<in> ?R" using c True curR by (auto intro: reachable_step)
        moreover have "x \<in> ?R" using x(1) i3 by auto
        ultimately have "x = c" using x(2) 2(2) by (auto dest: inj_onD)
        with x(1) show "c \<in> set (vs @ [cur]) \<union> set q'" by simp
      qed
    qed
  qed
  from 2(1)[OF st[symmetric] 2(2) i1 i2 i3 i4 i5]
  have "distinct ((vs @ [cur]) @ bfs_loop g v' q')
        \<and> set ((vs @ [cur]) @ bfs_loop g v' q') = ?R" .
  moreover have "bfs_loop g visited (cur # queue) = cur # bfs_loop g v' q'"
    using st by simp
  ultimately show ?case by simp
qed

subsection \<open>What the traversals visit\<close>

lemma set_dfs_push_eq:
  "set (dfs_push es visited stack)
     = set stack \<union> {c \<in> target ` set es. node_value c \<notin> set visited}"
  by (auto simp: dfs_push_filter Set_has_def)

lemma dfs_step_unvisited:
  assumes "node_value cur \<notin> set visited"
    and "dfs_step g visited cur stack = (v', s', out)"
  shows "set v' = insert (node_value cur) (set visited)"
    and "set s' = set stack \<union> {c \<in> successors g cur. node_value c \<notin> set v'}"
    and "out = [cur]"
  using assms
  by (auto simp: dfs_step_def Let_def Set_has_def set_Set_add successors_def set_dfs_push_eq
           split: option.splits)

lemma dfs_step_visited:
  assumes "node_value cur \<in> set visited"
    and "dfs_step g visited cur stack = (v', s', out)"
  shows "v' = visited \<and> s' = stack \<and> out = []"
  using assms by (auto simp: dfs_step_def Set_has_def)

text \<open>The invariant of the loop of \<open>dfs\<close>, with the nodes visited so far as \<open>vs\<close>.\<close>

lemma dfs_loop_correct:
  "inj_on node_value (reachable g s)
    \<Longrightarrow> set visited = node_value ` set vs
    \<Longrightarrow> distinct vs
    \<Longrightarrow> set vs \<union> set stack \<subseteq> reachable g s
    \<Longrightarrow> s \<in> set vs \<union> set stack
    \<Longrightarrow> (\<forall>u \<in> set vs. successors g u \<subseteq> set vs \<union> set stack)
    \<Longrightarrow> distinct (vs @ dfs_loop g visited stack)
        \<and> set (vs @ dfs_loop g visited stack) = reachable g s"
proof (induction g visited stack arbitrary: vs rule: dfs_loop.induct)
  case (1 g visited)
  have "reachable g s \<subseteq> set vs"
    using 1 by (intro reachable_closed) auto
  with 1 show ?case by auto
next
  case (2 g visited cur stack)
  let ?R = "reachable g s"
  obtain v' s' out where st: "dfs_step g visited cur stack = (v', s', out)"
    by (cases "dfs_step g visited cur stack") auto
  have res: "dfs_loop g visited (cur # stack) = out @ dfs_loop g v' s'"
    using st by simp
  have curR: "cur \<in> ?R" using 2(5) by simp
  show ?case
  proof (cases "node_value cur \<in> set visited")
    case True
    from dfs_step_visited[OF True st] have eq: "v' = visited" "s' = stack" "out = []" by auto
    from True 2(3) obtain x where x: "x \<in> set vs" "node_value x = node_value cur"
      by auto
    moreover have "x \<in> ?R" using x(1) 2(5) by auto
    ultimately have "x = cur" using curR 2(2) by (auto dest: inj_onD)
    with x(1) have curvs: "cur \<in> set vs" by simp
    have i3: "set vs \<union> set s' \<subseteq> ?R" using 2(5) eq by auto
    have i4: "s \<in> set vs \<union> set s'" using 2(6) curvs eq by auto
    have i5: "\<forall>u \<in> set vs. successors g u \<subseteq> set vs \<union> set s'"
      using 2(7) curvs eq by auto
    have i1: "set v' = node_value ` set vs" using 2(3) eq by simp
    from 2(1)[OF st[symmetric] refl 2(2) i1 2(4) i3 i4 i5] res eq
    show ?thesis by simp
  next
    case False
    note u = dfs_step_unvisited[OF False st]
    have curvs: "cur \<notin> set vs" using False 2(3) by auto
    have i1: "set v' = node_value ` set (vs @ [cur])" using u(1) 2(3) by auto
    have i2: "distinct (vs @ [cur])" using 2(4) curvs by simp
    have i3: "set (vs @ [cur]) \<union> set s' \<subseteq> ?R"
      using 2(5) u(2) curR by (auto intro: reachable_step)
    have i4: "s \<in> set (vs @ [cur]) \<union> set s'" using 2(6) u(2) by auto
    have i5: "\<forall>u \<in> set (vs @ [cur]). successors g u \<subseteq> set (vs @ [cur]) \<union> set s'"
    proof
      fix w assume w: "w \<in> set (vs @ [cur])"
      show "successors g w \<subseteq> set (vs @ [cur]) \<union> set s'"
      proof (cases "w = cur")
        case False
        with w 2(7) u(2) show ?thesis by auto
      next
        case True
        show ?thesis
        proof
          fix c assume c: "c \<in> successors g w"
          show "c \<in> set (vs @ [cur]) \<union> set s'"
          proof (cases "node_value c \<in> set v'")
            case False
            with c True u(2) show ?thesis by auto
          next
            case True2: True
            with i1 have "node_value c \<in> node_value ` set (vs @ [cur])" by simp
            then obtain x where x: "x \<in> set (vs @ [cur])" "node_value x = node_value c"
              by (elim imageE) simp
            have "c \<in> ?R" using c True curR by (auto intro: reachable_step)
            moreover have "x \<in> ?R" using x(1) i3 by auto
            ultimately have "x = c" using x(2) 2(2) by (auto dest: inj_onD)
            with x(1) show ?thesis by auto
          qed
        qed
      qed
    qed
    from 2(1)[OF st[symmetric] refl 2(2) i1 i2 i3 i4 i5] res u(3)
    show ?thesis by simp
  qed
qed

text \<open>
  C3, under the data-model invariant. For every graph the interface can build whose nodes
  have pairwise distinct values, and every start node present in it, the trace of \<open>bfs\<close> and
  the trace of \<open>dfs\<close> each list every node reachable from the start node along outgoing
  edges exactly once, and no other node.
\<close>

theorem traversal_visits_component:
  assumes "built g" and "unique_values g" and "hasNode g start"
  shows "distinct (fst (bfs g start)) \<and> set (fst (bfs g start)) = reachable g start
       \<and> distinct (fst (dfs g start)) \<and> set (fst (dfs g start)) = reachable g start"
proof -
  have v: "valid_graph g" using assms(1) by (rule built_valid)
  with assms(3) have s: "start \<in> set (nodes g)" by (simp add: valid_hasNode)
  have "reachable g start \<subseteq> set (nodes g)"
    using reachable_in_nodes[OF v s] by auto
  with unique_values_inj[OF assms(2)] have inj: "inj_on node_value (reachable g start)"
    by (rule inj_on_subset)
  have b: "distinct ([] @ bfs_loop g (Set_add (node_value start) []) [start])
      \<and> set ([] @ bfs_loop g (Set_add (node_value start) []) [start]) = reachable g start"
    by (rule bfs_loop_correct[OF inj]) (simp_all add: set_Set_add reachable_refl)
  have d: "distinct ([] @ dfs_loop g [] [start])
      \<and> set ([] @ dfs_loop g [] [start]) = reachable g start"
    by (rule dfs_loop_correct[OF inj]) (simp_all add: reachable_refl)
  from b d assms(3) show ?thesis by (simp add: bfs_def dfs_def)
qed

lemma built_five_nodes: "built five_nodes"
  by (simp add: five_nodes_def built.intros)

lemma built_traversal_scenario: "built traversal_scenario"
  by (simp add: traversal_scenario_def built_five_nodes built.intros)

lemma built_weighted_scenario: "built weighted_scenario"
  by (simp add: weighted_scenario_def built_five_nodes built.intros)

theorem traversal_visits_component_witness:
  "fst (bfs traversal_scenario node_A) = [node_A, node_B, node_C, node_D, node_E]
   \<and> fst (dfs traversal_scenario node_A) = [node_A, node_C, node_D, node_E, node_B]
   \<and> distinct (fst (bfs traversal_scenario node_A))
   \<and> set (fst (bfs traversal_scenario node_A)) = reachable traversal_scenario node_A
   \<and> distinct (fst (dfs traversal_scenario node_A))
   \<and> set (fst (dfs traversal_scenario node_A)) = reachable traversal_scenario node_A"
proof -
  have h2: "unique_values traversal_scenario" by code_simp
  have h3: "hasNode traversal_scenario node_A" by code_simp
  have e1: "fst (bfs traversal_scenario node_A) = [node_A, node_B, node_C, node_D, node_E]"
    by code_simp
  have e2: "fst (dfs traversal_scenario node_A) = [node_A, node_C, node_D, node_E, node_B]"
    by code_simp
  from traversal_visits_component[OF built_traversal_scenario h2 h3] e1 e2
  show ?thesis by simp
qed

text \<open>
  C3 as stated, for every graph, fails where two nodes share a value: with X and Y both of
  value 70 and the edge from X to Y, the node Y is in the component of X, and neither
  traversal from X visits it.
\<close>

theorem traversal_misses_duplicate_value:
  "hasNode duplicate_traversal_scenario node_X
   \<and> node_Y \<in> reachable duplicate_traversal_scenario node_X
   \<and> fst (bfs duplicate_traversal_scenario node_X) = [node_X]
   \<and> fst (dfs duplicate_traversal_scenario node_X) = [node_X]
   \<and> node_Y \<notin> set [node_X]"
proof -
  have "node_Y \<in> successors duplicate_traversal_scenario node_X" by code_simp
  with reachable_refl[of node_X duplicate_traversal_scenario]
  have "node_Y \<in> reachable duplicate_traversal_scenario node_X"
    by (rule reachable_step)
  moreover have "hasNode duplicate_traversal_scenario node_X" by code_simp
  moreover have "fst (bfs duplicate_traversal_scenario node_X) = [node_X]" by code_simp
  moreover have "fst (dfs duplicate_traversal_scenario node_X) = [node_X]" by code_simp
  moreover have "node_Y \<notin> set [node_X]" by code_simp
  ultimately show ?thesis by simp
qed

subsection \<open>Numbers and the relaxation loop\<close>

lemma le_Infinity: "x \<le> Infinity"
  by (cases x) (simp_all add: less_eq_number_def)

lemma Infinity_le_iff: "(Infinity \<le> x) = (x = Infinity)"
  by (cases x) (simp_all add: less_eq_number_def)

lemma Fin_le_iff: "(Fin a \<le> Fin b) = (a \<le> b)"
  by (auto simp: less_eq_number_def)

lemma Fin_less_iff: "(Fin a < Fin b) = (a < b)"
  by (simp add: less_number_def)

lemma less_Infinity_iff: "(x < Infinity) = (x \<noteq> Infinity)"
  by (cases x) (simp_all add: less_number_def)

lemma not_Infinity_less: "\<not> Infinity < x"
  by (simp add: less_number_def)

lemmas number_simps = le_Infinity Infinity_le_iff Fin_le_iff Fin_less_iff less_Infinity_iff
  not_Infinity_less

lemma num_add_ge: "0 \<le> w \<Longrightarrow> x \<le> num_add x w"
  by (cases x) (simp_all add: number_simps)

lemma num_add_mono: "x \<le> y \<Longrightarrow> num_add x w \<le> num_add y w"
  by (cases x; cases y) (simp_all add: number_simps)

lemma num_add_nonneg: "Fin 0 \<le> x \<Longrightarrow> 0 \<le> w \<Longrightarrow> Fin 0 \<le> num_add x w"
  by (cases x) (simp_all add: number_simps)

lemma Map_get_Map_set: "Map_get (Map_set k x m) v = (if v = k then Some x else Map_get m v)"
  by (simp add: Map_get_def map_of_Map_set)

lemma Map_has_Map_set: "Map_has (Map_set k x m) v = (v = k \<or> Map_has m v)"
  by (simp add: Map_has_def map_of_Map_set)

lemma dist_at_Map_set: "dist_at (Map_set k x d) v = (if v = k then x else dist_at d v)"
  by (simp add: dist_at_def Map_get_Map_set)

lemma dist_at_eq: "Map_get d' v = Map_get d v \<Longrightarrow> dist_at d' v = dist_at d v"
  by (simp add: dist_at_def)

lemma dist_at_Some: "Map_get d v = Some x \<Longrightarrow> dist_at d v = x"
  by (simp add: dist_at_def)

lemma Map_has_get: "Map_has m v = (\<exists>x. Map_get m v = Some x)"
  by (simp add: Map_has_def Map_get_def)

text \<open>One pass of the relaxation body that does not abort.\<close>

lemma relax_edge_cases:
  assumes "relax_edge cur U e d p = Inr (d', p')"
  shows "0 \<le> edge_weight e
    \<and> ((d' = d \<and> p' = p
         \<and> (node_value (target e) \<in> set U \<longrightarrow>
              (\<forall>dc dn. Map_get d (node_value cur) = Some dc \<longrightarrow>
                 Map_get d (node_value (target e)) = Some dn \<longrightarrow>
                 dn \<le> num_add dc (edge_weight e))))
       \<or> (node_value (target e) \<in> set U
          \<and> (\<exists>dc dn. Map_get d (node_value cur) = Some dc
                \<and> Map_get d (node_value (target e)) = Some dn
                \<and> num_add dc (edge_weight e) < dn
                \<and> d' = Map_set (node_value (target e)) (num_add dc (edge_weight e)) d
                \<and> p' = Map_set (node_value (target e)) (Some cur) p)))"
  using assms
  by (auto simp: relax_edge_def Let_def Set_has_def split: if_splits option.splits)

lemma relax_edge_weight:
  "relax_edge cur U e d p = Inr (d', p') \<Longrightarrow> 0 \<le> edge_weight e"
  using relax_edge_cases[of cur U e d p d' p'] by simp

lemma relax_edge_frame:
  "relax_edge cur U e d p = Inr (d', p') \<Longrightarrow> v \<notin> set U
   \<Longrightarrow> Map_get d' v = Map_get d v \<and> Map_get p' v = Map_get p v"
  using relax_edge_cases[of cur U e d p d' p'] by (auto simp: Map_get_Map_set)

lemma relax_edge_has:
  "relax_edge cur U e d p = Inr (d', p')
   \<Longrightarrow> (Map_has d v \<longrightarrow> Map_has d' v) \<and> (Map_has p v \<longrightarrow> Map_has p' v)"
  using relax_edge_cases[of cur U e d p d' p'] by (auto simp: Map_has_Map_set)

lemma relax_edge_mono:
  "relax_edge cur U e d p = Inr (d', p') \<Longrightarrow> dist_at d' v \<le> dist_at d v"
  using relax_edge_cases[of cur U e d p d' p']
  by (auto simp: dist_at_Map_set dist_at_Some)

lemma relax_edge_change:
  "relax_edge cur U e d p = Inr (d', p') \<Longrightarrow> Map_get d (node_value cur) = Some dc
   \<Longrightarrow> (Map_get d' v = Map_get d v \<and> Map_get p' v = Map_get p v)
       \<or> (v = node_value (target e) \<and> dist_at d' v = num_add dc (edge_weight e))"
  using relax_edge_cases[of cur U e d p d' p']
  by (auto simp: dist_at_Map_set Map_get_Map_set)

lemma relax_edge_relaxed:
  "relax_edge cur U e d p = Inr (d', p') \<Longrightarrow> Map_get d (node_value cur) = Some dc
   \<Longrightarrow> node_value (target e) \<in> set U \<Longrightarrow> Map_has d (node_value (target e))
   \<Longrightarrow> dist_at d' (node_value (target e)) \<le> num_add dc (edge_weight e)"
  using relax_edge_cases[of cur U e d p d' p']
  by (auto simp: dist_at_Map_set dist_at_Some Map_has_get)

lemma relax_Cons_Inr:
  "relax cur U (e # es) d p = Inr (d', p')
   \<Longrightarrow> \<exists>d1 p1. relax_edge cur U e d p = Inr (d1, p1) \<and> relax cur U es d1 p1 = Inr (d', p')"
  by (auto split: sum.splits)

lemma relax_weight:
  "relax cur U es d p = Inr (d', p') \<Longrightarrow> e \<in> set es \<Longrightarrow> 0 \<le> edge_weight e"
proof (induction es arbitrary: d p)
  case Nil
  then show ?case by simp
next
  case (Cons x es)
  from relax_Cons_Inr[OF Cons.prems(1)] obtain d1 p1 where
    s: "relax_edge cur U x d p = Inr (d1, p1)" "relax cur U es d1 p1 = Inr (d', p')" by blast
  from Cons.prems(2) relax_edge_weight[OF s(1)] Cons.IH[OF s(2)] show ?case by auto
qed

lemma relax_frame:
  "relax cur U es d p = Inr (d', p') \<Longrightarrow> v \<notin> set U
   \<Longrightarrow> Map_get d' v = Map_get d v \<and> Map_get p' v = Map_get p v"
proof (induction es arbitrary: d p)
  case Nil
  then show ?case by simp
next
  case (Cons x es)
  from relax_Cons_Inr[OF Cons.prems(1)] obtain d1 p1 where
    s: "relax_edge cur U x d p = Inr (d1, p1)" "relax cur U es d1 p1 = Inr (d', p')" by blast
  from relax_edge_frame[OF s(1) Cons.prems(2)] Cons.IH[OF s(2) Cons.prems(2)] show ?case by simp
qed

lemma relax_has:
  "relax cur U es d p = Inr (d', p')
   \<Longrightarrow> (Map_has d v \<longrightarrow> Map_has d' v) \<and> (Map_has p v \<longrightarrow> Map_has p' v)"
proof (induction es arbitrary: d p)
  case Nil
  then show ?case by simp
next
  case (Cons x es)
  from relax_Cons_Inr[OF Cons.prems(1)] obtain d1 p1 where
    s: "relax_edge cur U x d p = Inr (d1, p1)" "relax cur U es d1 p1 = Inr (d', p')" by blast
  from relax_edge_has[OF s(1), of v] Cons.IH[OF s(2)] show ?case by simp
qed

lemma relax_mono:
  "relax cur U es d p = Inr (d', p') \<Longrightarrow> dist_at d' v \<le> dist_at d v"
proof (induction es arbitrary: d p)
  case Nil
  then show ?case by simp
next
  case (Cons x es)
  from relax_Cons_Inr[OF Cons.prems(1)] obtain d1 p1 where
    s: "relax_edge cur U x d p = Inr (d1, p1)" "relax cur U es d1 p1 = Inr (d', p')" by blast
  from relax_edge_mono[OF s(1), of v] Cons.IH[OF s(2)] show ?case by (rule order_trans[rotated])
qed

lemma relax_change:
  "relax cur U es d p = Inr (d', p') \<Longrightarrow> Map_get d (node_value cur) = Some dc
   \<Longrightarrow> node_value cur \<notin> set U
   \<Longrightarrow> (Map_get d' v = Map_get d v \<and> Map_get p' v = Map_get p v)
       \<or> (\<exists>e \<in> set es. v = node_value (target e) \<and> dist_at d' v = num_add dc (edge_weight e))"
proof (induction es arbitrary: d p)
  case Nil
  then show ?case by simp
next
  case (Cons x es)
  from relax_Cons_Inr[OF Cons.prems(1)] obtain d1 p1 where
    s: "relax_edge cur U x d p = Inr (d1, p1)" "relax cur U es d1 p1 = Inr (d', p')" by blast
  from relax_edge_frame[OF s(1) Cons.prems(3)] Cons.prems(2)
  have c1: "Map_get d1 (node_value cur) = Some dc" by simp
  from Cons.IH[OF s(2) c1 Cons.prems(3)]
  consider (same) "Map_get d' v = Map_get d1 v" "Map_get p' v = Map_get p1 v"
    | (rest) "\<exists>e \<in> set es. v = node_value (target e) \<and> dist_at d' v = num_add dc (edge_weight e)"
    by blast
  then show ?case
  proof cases
    case same
    from same(1) have "dist_at d' v = dist_at d1 v" by (rule dist_at_eq)
    with relax_edge_change[OF s(1) Cons.prems(2), of v] same show ?thesis
      by auto
  next
    case rest
    then show ?thesis by auto
  qed
qed

lemma relax_relaxed:
  "relax cur U es d p = Inr (d', p') \<Longrightarrow> Map_get d (node_value cur) = Some dc
   \<Longrightarrow> node_value cur \<notin> set U \<Longrightarrow> e \<in> set es
   \<Longrightarrow> node_value (target e) \<in> set U \<Longrightarrow> Map_has d (node_value (target e))
   \<Longrightarrow> dist_at d' (node_value (target e)) \<le> num_add dc (edge_weight e)"
proof (induction es arbitrary: d p)
  case Nil
  then show ?case by simp
next
  case (Cons x es)
  from relax_Cons_Inr[OF Cons.prems(1)] obtain d1 p1 where
    s: "relax_edge cur U x d p = Inr (d1, p1)" "relax cur U es d1 p1 = Inr (d', p')" by blast
  from relax_edge_frame[OF s(1) Cons.prems(3)] Cons.prems(2)
  have c1: "Map_get d1 (node_value cur) = Some dc" by simp
  from relax_edge_has[OF s(1)] Cons.prems(6)
  have h1: "Map_has d1 (node_value (target e))" by simp
  show ?case
  proof (cases "e = x")
    case True
    from relax_edge_relaxed[OF s(1) Cons.prems(2)] Cons.prems(5,6) True
    have "dist_at d1 (node_value (target e)) \<le> num_add dc (edge_weight e)" by simp
    with relax_mono[OF s(2), of "node_value (target e)"] show ?thesis
      by (rule order_trans)
  next
    case False
    with Cons.prems(4) have "e \<in> set es" by simp
    from Cons.IH[OF s(2) c1 Cons.prems(3) this Cons.prems(5) h1] show ?thesis .
  qed
qed

subsection \<open>The minimum scan and the initial state\<close>

lemma scan_min_spec:
  "scan_min d xs c m = (c', m')
   \<Longrightarrow> m' \<le> m \<and> (\<forall>w \<in> set xs. m' \<le> dist_at d w)
       \<and> ((c' = c \<and> m' = m) \<or> (\<exists>v \<in> set xs. c' = Some v \<and> Map_get d v = Some m' \<and> m' < m))"
proof (induction xs arbitrary: c m)
  case Nil
  then show ?case by simp
next
  case (Cons x xs)
  show ?case
  proof (cases "Map_get d x")
    case None
    with Cons.prems have "scan_min d xs c m = (c', m')" by simp
    from Cons.IH[OF this] None show ?thesis
      by (auto simp: dist_at_def le_Infinity)
  next
    case (Some dx)
    then have dx: "dist_at d x = dx" by (rule dist_at_Some)
    show ?thesis
    proof (cases "dx < m")
      case True
      with Cons.prems Some have "scan_min d xs (Some x) dx = (c', m')" by simp
      from Cons.IH[OF this] have ih: "m' \<le> dx" "\<forall>w \<in> set xs. m' \<le> dist_at d w"
        "(c' = Some x \<and> m' = dx) \<or> (\<exists>v \<in> set xs. c' = Some v \<and> Map_get d v = Some m' \<and> m' < dx)"
        by auto
      from ih(1) True have "m' < m" by simp
      with ih Some dx show ?thesis by auto
    next
      case False
      with Cons.prems Some have "scan_min d xs c m = (c', m')" by simp
      from Cons.IH[OF this] have ih: "m' \<le> m" "\<forall>w \<in> set xs. m' \<le> dist_at d w"
        "(c' = c \<and> m' = m) \<or> (\<exists>v \<in> set xs. c' = Some v \<and> Map_get d v = Some m' \<and> m' < m)"
        by auto
      from ih(1) False have "m' \<le> dx" by simp
      with ih dx show ?thesis by auto
    qed
  qed
qed

lemma scan_min_start_Some:
  assumes "scan_min d U None Infinity = (Some cv, m)"
  shows "cv \<in> set U \<and> Map_get d cv = Some m \<and> m \<noteq> Infinity \<and> (\<forall>w \<in> set U. m \<le> dist_at d w)"
  using scan_min_spec[OF assms] by (auto simp: less_Infinity_iff)

lemma scan_min_start_Infinity:
  assumes "scan_min d U None Infinity = (c, m)" and "c = None \<or> m = Infinity"
  shows "\<forall>w \<in> set U. dist_at d w = Infinity"
proof -
  from scan_min_spec[OF assms(1)] assms(2) have "m = Infinity" by auto
  with scan_min_spec[OF assms(1)] show ?thesis by (auto simp: Infinity_le_iff)
qed

lemma Map_get_init_aux:
  "Map_get (foldl (\<lambda>m n. Map_set (node_value n) x m) m0 ns) v
     = (if v \<in> node_value ` set ns then Some x else Map_get m0 v)"
  by (induction ns arbitrary: m0) (auto simp: Map_get_Map_set)

lemma Map_get_init_distances:
  "Map_get (init_distances ns) v = (if v \<in> node_value ` set ns then Some Infinity else None)"
  by (simp add: init_distances_def Map_get_init_aux) (simp add: Map_get_def)

lemma Map_get_init_predecessors:
  "Map_get (init_predecessors ns) v = (if v \<in> node_value ` set ns then Some None else None)"
  by (simp add: init_predecessors_def Map_get_init_aux) (simp add: Map_get_def)

lemma nodeMap_lookup:
  assumes "valid_graph g" "unique_values g" "n \<in> set (nodes g)"
  shows "Map_get (nodeMap g) (node_value n) = Some n"
proof -
  from assms(1,3) have "Map_has (nodeMap g) (node_value n)" by (simp add: valid_graph_def)
  then obtain m where m: "Map_get (nodeMap g) (node_value n) = Some m"
    by (auto simp: Map_has_get)
  with assms(1) have "m \<in> set (nodes g)" "node_value m = node_value n"
    by (auto simp: valid_graph_def)
  with unique_values_inj[OF assms(2)] assms(3) have "m = n" by (auto dest: inj_onD)
  with m show ?thesis by simp
qed

lemma dijkstra_inv_init:
  assumes "valid_graph g" "unique_values g" "s \<in> set (nodes g)"
  shows "dijkstra_inv g s (Set_of (map node_value (nodes g)))
           (Map_set (node_value s) (Fin 0) (init_distances (nodes g)))
           (init_predecessors (nodes g))"
proof -
  let ?d = "Map_set (node_value s) (Fin 0) (init_distances (nodes g))"
  have d: "\<And>v. dist_at ?d v = (if v = node_value s then Fin 0 else Infinity)"
    by (simp add: dist_at_Map_set) (simp add: dist_at_def Map_get_init_distances)
  have u: "set (Set_of (map node_value (nodes g))) = node_value ` set (nodes g)"
    by (simp add: set_Set_of)
  have ne: "\<And>n. n \<in> set (nodes g) \<Longrightarrow> n \<notin> reachable g s \<Longrightarrow> node_value n \<noteq> node_value s"
    using unique_values_inj[OF assms(2)] assms(3) reachable_refl[of s g]
    by (auto dest: inj_onD)
  show ?thesis
    unfolding dijkstra_inv_def u
    by (auto simp: d Map_has_get Map_get_Map_set Map_get_init_distances
          Map_get_init_predecessors number_simps ne)
qed

subsection \<open>The loop invariant of \<open>dijkstra\<close>\<close>

lemma set_Set_delete: "set (Set_delete v s) = set s - {v}"
  by (simp add: Set_delete_def)

lemma dijkstra_iteration_Next_relax:
  assumes v: "valid_graph g" and uq: "unique_values g"
    and U: "set U \<subseteq> node_value ` set (nodes g)"
    and it: "dijkstra_iteration g U d p = Next U' d' p'"
  shows "\<exists>n es m. n \<in> set (nodes g) \<and> node_value n \<in> set U
           \<and> U' = Set_delete (node_value n) U
           \<and> Map_get d (node_value n) = Some m \<and> m \<noteq> Infinity
           \<and> (\<forall>w \<in> set U. m \<le> dist_at d w)
           \<and> getNeighbors g n = Some es
           \<and> relax n U' es d p = Inr (d', p')"
proof -
  obtain c m where sm: "scan_min d U None Infinity = (c, m)"
    by (cases "scan_min d U None Infinity")
  with it obtain cv where c: "c = Some cv" and mi: "m \<noteq> Infinity"
    by (cases c) (auto simp: dijkstra_iteration_def split: if_splits)
  from scan_min_start_Some[OF sm[unfolded c]]
  have cvU: "cv \<in> set U" and dcv: "Map_get d cv = Some m"
    and mn: "\<forall>w \<in> set U. m \<le> dist_at d w" by auto
  from cvU U obtain n where n: "n \<in> set (nodes g)" "node_value n = cv" by auto
  from nodeMap_lookup[OF v uq n(1)] n(2) have nm: "Map_get (nodeMap g) cv = Some n" by simp
  from v n(1) have "hasNode g n" by (simp add: valid_hasNode)
  then obtain es where es: "getNeighbors g n = Some es"
    by (auto simp: hasNode_getNeighbors)
  from it sm c mi nm es
  have "U' = Set_delete cv U \<and> relax n (Set_delete cv U) es d p = Inr (d', p')"
    by (auto simp: dijkstra_iteration_def Let_def split: sum.splits)
  with n cvU dcv mi mn es show ?thesis by blast
qed

lemma dijkstra_iteration_inv:
  assumes v: "valid_graph g" and uq: "unique_values g"
    and inv: "dijkstra_inv g s U d p"
    and it: "dijkstra_iteration g U d p = Next U' d' p'"
  shows "dijkstra_inv g s U' d' p'"
proof -
  let ?N = "set (nodes g)"
  let ?k = node_value
  note inj = unique_values_inj[OF uq]
  from inv have I0: "\<And>n. n \<in> ?N \<Longrightarrow> Map_has d (?k n) \<and> Map_has p (?k n)"
    and I1: "set U \<subseteq> ?k ` ?N"
    and I2: "dist_at d (?k s) = Fin 0"
    and I3: "\<And>v. Fin 0 \<le> dist_at d v"
    and I4: "\<And>n. n \<in> ?N \<Longrightarrow> n \<notin> reachable g s \<Longrightarrow>
               dist_at d (?k n) = Infinity \<and> Map_get p (?k n) = Some None"
    and I5: "\<And>n w. n \<in> ?N \<Longrightarrow> w \<in> set U \<Longrightarrow> ?k n \<notin> set U \<Longrightarrow>
               dist_at d (?k n) \<le> dist_at d w"
    and I7: "\<And>n es e. n \<in> ?N \<Longrightarrow> ?k n \<notin> set U \<Longrightarrow> getNeighbors g n = Some es \<Longrightarrow>
               e \<in> set es \<Longrightarrow>
               dist_at d (?k (target e)) \<le> num_add (dist_at d (?k n)) (edge_weight e)"
    unfolding dijkstra_inv_def by blast+
  from dijkstra_iteration_Next_relax[OF v uq I1 it] obtain n es m where
    nN: "n \<in> ?N" and nU: "?k n \<in> set U" and U': "U' = Set_delete (?k n) U"
    and dn: "Map_get d (?k n) = Some m" and mfin: "m \<noteq> Infinity"
    and mmin: "\<And>w. w \<in> set U \<Longrightarrow> m \<le> dist_at d w"
    and es: "getNeighbors g n = Some es"
    and rl: "relax n U' es d p = Inr (d', p')"
    by blast
  have sU': "set U' = set U - {?k n}" by (simp add: U' set_Set_delete)
  then have nU': "?k n \<notin> set U'" by simp
  have dnm: "dist_at d (?k n) = m" using dn by (rule dist_at_Some)
  have F4: "\<And>v. v \<notin> set U' \<Longrightarrow> dist_at d' v = dist_at d v \<and> Map_get p' v = Map_get p v"
  proof -
    fix v assume "v \<notin> set U'"
    from relax_frame[OF rl this] show "dist_at d' v = dist_at d v \<and> Map_get p' v = Map_get p v"
      by (simp add: dist_at_def)
  qed
  have F5: "\<And>v. dist_at d' v \<le> dist_at d v" by (rule relax_mono[OF rl])
  have F6: "\<And>v. (dist_at d' v = dist_at d v \<and> Map_get p' v = Map_get p v)
       \<or> (\<exists>e \<in> set es. v = ?k (target e) \<and> dist_at d' v = num_add m (edge_weight e))"
  proof -
    fix v
    from relax_change[OF rl dn nU', of v]
    show "(dist_at d' v = dist_at d v \<and> Map_get p' v = Map_get p v)
       \<or> (\<exists>e \<in> set es. v = ?k (target e) \<and> dist_at d' v = num_add m (edge_weight e))"
    proof
      assume a: "Map_get d' v = Map_get d v \<and> Map_get p' v = Map_get p v"
      then have "dist_at d' v = dist_at d v" by (simp add: dist_at_def)
      with a show ?thesis by simp
    next
      assume "\<exists>e \<in> set es. v = ?k (target e) \<and> dist_at d' v = num_add m (edge_weight e)"
      then show ?thesis ..
    qed
  qed
  have F7: "\<And>e. e \<in> set es \<Longrightarrow> 0 \<le> edge_weight e" by (rule relax_weight[OF rl])
  have tN: "\<And>e. e \<in> set es \<Longrightarrow> target e \<in> ?N"
    using v es by (auto simp: valid_graph_def)
  have F8: "\<And>e. e \<in> set es \<Longrightarrow> ?k (target e) \<in> set U' \<Longrightarrow>
              dist_at d' (?k (target e)) \<le> num_add m (edge_weight e)"
    using relax_relaxed[OF rl dn nU'] I0 tN by blast
  have nreach: "n \<in> reachable g s"
    using I4[OF nN] dnm mfin by auto
  \<comment> \<open>a node visited after this iteration is no farther than the current node\<close>
  have le_m: "\<And>x. x \<in> ?N \<Longrightarrow> ?k x \<notin> set U' \<Longrightarrow> dist_at d (?k x) \<le> m"
  proof -
    fix x assume x: "x \<in> ?N" "?k x \<notin> set U'"
    show "dist_at d (?k x) \<le> m"
    proof (cases "?k x = ?k n")
      case True
      with dnm show ?thesis by simp
    next
      case False
      with x(2) sU' have "?k x \<notin> set U" by simp
      from I5[OF x(1) nU this] dnm show ?thesis by simp
    qed
  qed
  have J0: "\<forall>x \<in> ?N. Map_has d' (?k x) \<and> Map_has p' (?k x)"
    using relax_has[OF rl] I0 by blast
  have J1: "set U' \<subseteq> ?k ` ?N" using I1 sU' by auto
  have J3: "\<forall>v. Fin 0 \<le> dist_at d' v"
  proof
    fix v
    from F6[of v] show "Fin 0 \<le> dist_at d' v"
    proof
      assume "dist_at d' v = dist_at d v \<and> Map_get p' v = Map_get p v"
      with I3[of v] show ?thesis by simp
    next
      assume "\<exists>e \<in> set es. v = ?k (target e) \<and> dist_at d' v = num_add m (edge_weight e)"
      then obtain e where e: "e \<in> set es" "dist_at d' v = num_add m (edge_weight e)" by blast
      from I3[of "?k n"] dnm have "Fin 0 \<le> m" by simp
      from num_add_nonneg[OF this F7[OF e(1)]] e(2) show ?thesis by simp
    qed
  qed
  have J2: "dist_at d' (?k s) = Fin 0"
    using F5[of "?k s"] I2 J3 by (auto intro: antisym)
  have J4: "\<forall>x \<in> ?N. x \<notin> reachable g s \<longrightarrow>
              dist_at d' (?k x) = Infinity \<and> Map_get p' (?k x) = Some None"
  proof (intro ballI impI)
    fix x assume x: "x \<in> ?N" "x \<notin> reachable g s"
    from F6[of "?k x"] show "dist_at d' (?k x) = Infinity \<and> Map_get p' (?k x) = Some None"
    proof
      assume "dist_at d' (?k x) = dist_at d (?k x) \<and> Map_get p' (?k x) = Map_get p (?k x)"
      with I4[OF x] show ?thesis by simp
    next
      assume "\<exists>e \<in> set es. ?k x = ?k (target e)
                \<and> dist_at d' (?k x) = num_add m (edge_weight e)"
      then obtain e where e: "e \<in> set es" "?k x = ?k (target e)" by blast
      from tN[OF e(1)] x(1) e(2) inj have "x = target e" by (auto dest: inj_onD)
      with e(1) es have "x \<in> successors g n" by (auto simp: successors_def)
      with nreach have "x \<in> reachable g s" by (rule reachable_step)
      with x(2) show ?thesis by simp
    qed
  qed
  have J5: "\<forall>x \<in> ?N. \<forall>w \<in> set U'. ?k x \<notin> set U' \<longrightarrow> dist_at d' (?k x) \<le> dist_at d' w"
  proof (intro ballI impI)
    fix x w assume x: "x \<in> ?N" and w: "w \<in> set U'" and xv: "?k x \<notin> set U'"
    have a: "dist_at d' (?k x) = dist_at d (?k x)" using F4[OF xv] by simp
    have am: "dist_at d (?k x) \<le> m" by (rule le_m[OF x xv])
    from w sU' have wU: "w \<in> set U" by simp
    from F6[of w] show "dist_at d' (?k x) \<le> dist_at d' w"
    proof
      assume "dist_at d' w = dist_at d w \<and> Map_get p' w = Map_get p w"
      moreover have "dist_at d (?k x) \<le> dist_at d w"
        using am mmin[OF wU] by (rule order_trans)
      ultimately show ?thesis using a by simp
    next
      assume "\<exists>e \<in> set es. w = ?k (target e) \<and> dist_at d' w = num_add m (edge_weight e)"
      then obtain e where e: "e \<in> set es" "dist_at d' w = num_add m (edge_weight e)" by blast
      from num_add_ge[OF F7[OF e(1)], of m] am have "dist_at d (?k x) \<le> num_add m (edge_weight e)"
        by (rule order_trans[rotated])
      with a e(2) show ?thesis by simp
    qed
  qed
  have J7: "\<forall>x \<in> ?N. ?k x \<notin> set U' \<longrightarrow>
              (\<forall>es' e. getNeighbors g x = Some es' \<longrightarrow> e \<in> set es' \<longrightarrow>
                 dist_at d' (?k (target e)) \<le> num_add (dist_at d' (?k x)) (edge_weight e))"
  proof (intro ballI impI allI)
    fix x es' e
    assume x: "x \<in> ?N" and xv: "?k x \<notin> set U'"
      and es': "getNeighbors g x = Some es'" and e: "e \<in> set es'"
    have a: "dist_at d' (?k x) = dist_at d (?k x)" using F4[OF xv] by simp
    show "dist_at d' (?k (target e)) \<le> num_add (dist_at d' (?k x)) (edge_weight e)"
    proof (cases "?k x = ?k n")
      case True
      with x nN inj have "x = n" by (auto dest: inj_onD)
      with es es' e have ees: "e \<in> set es" by simp
      have xm: "dist_at d' (?k x) = m" using a True dnm by simp
      show ?thesis
      proof (cases "?k (target e) \<in> set U'")
        case True
        from F8[OF ees True] xm show ?thesis by simp
      next
        case False
        from F4[OF False] le_m[OF tN[OF ees] False]
        have "dist_at d' (?k (target e)) \<le> m" by simp
        also have "m \<le> num_add m (edge_weight e)" by (rule num_add_ge[OF F7[OF ees]])
        finally show ?thesis using xm by simp
      qed
    next
      case False
      with xv sU' have "?k x \<notin> set U" by simp
      from I7[OF x this es' e] F5[of "?k (target e)"] a show ?thesis
        by (auto intro: order_trans)
    qed
  qed
  from J0 J1 J2 J3 J4 J5 J7 show ?thesis
    unfolding dijkstra_inv_def by blast
qed

lemma dijkstra_loop_inv:
  "valid_graph g \<Longrightarrow> unique_values g \<Longrightarrow> dijkstra_inv g s U d p
   \<Longrightarrow> dijkstra_loop g U d p = Inr (d', p')
   \<Longrightarrow> \<exists>U'. dijkstra_inv g s U' d' p' \<and> (\<forall>w \<in> set U'. dist_at d' w = Infinity)"
proof (induction g U d p rule: dijkstra_loop.induct)
  case (1 g U d p)
  show ?case
  proof (cases "U = []")
    case True
    with 1(5) have "d' = d" "p' = p" by (simp_all add: dijkstra_loop.simps[of g "[]"])
    with 1(4) True show ?thesis by auto
  next
    case False
    show ?thesis
    proof (cases "dijkstra_iteration g U d p")
      case (Next U1 d1 p1)
      from dijkstra_iteration_inv[OF 1(2,3,4) Next] have inv1: "dijkstra_inv g s U1 d1 p1" .
      from 1(5) False Next have "dijkstra_loop g U1 d1 p1 = Inr (d', p')"
        by (simp add: dijkstra_loop.simps[of g U])
      from 1(1)[OF False Next 1(2,3) inv1 this] show ?thesis .
    next
      case Break
      with 1(5) False have eq: "d' = d" "p' = p"
        by (simp_all add: dijkstra_loop.simps[of g U])
      obtain c m where sm: "scan_min d U None Infinity = (c, m)"
        by (cases "scan_min d U None Infinity")
      with Break have "c = None \<or> m = Infinity"
        by (cases c) (auto simp: dijkstra_iteration_def Let_def
                        split: if_splits option.splits sum.splits)
      from scan_min_start_Infinity[OF sm this] 1(4) eq show ?thesis by auto
    next
      case (Abort e)
      with 1(5) False show ?thesis by (simp add: dijkstra_loop.simps[of g U])
    qed
  qed
qed

text \<open>
  C1, under the data-model invariant. For every graph the interface can build whose nodes
  have pairwise distinct values, and a start node present in it: when \<open>dijkstra\<close> emits no
  diagnostic (it ran to completion, no negative weight was met), the distance of the start
  is 0; for every edge of the graph, from \<open>u\<close> to \<open>v\<close> with weight \<open>w\<close> (1 when absent), both
  ends have a distance and that of \<open>v\<close> is at most that of \<open>u\<close> plus \<open>w\<close> (for a source that
  was never processed the bound is \<open>Infinity\<close>); and every node that is not reachable from
  the start has distance \<open>Infinity\<close> and predecessor \<open>null\<close>.
\<close>

theorem dijkstra_completed_run:
  assumes "built g" and "unique_values g" and "hasNode g start"
    and "snd (dijkstra g start) = []"
  shows "Map_get (distances (fst (dijkstra g start))) (node_value start) = Some (Fin 0)
    \<and> (\<forall>u es e. getNeighbors g u = Some es \<longrightarrow> e \<in> set es \<longrightarrow>
          (\<exists>du dv. Map_get (distances (fst (dijkstra g start))) (node_value u) = Some du
             \<and> Map_get (distances (fst (dijkstra g start))) (node_value (target e)) = Some dv
             \<and> dv \<le> num_add du (edge_weight e)))
    \<and> (\<forall>n. hasNode g n \<longrightarrow> n \<notin> reachable g start \<longrightarrow>
          Map_get (distances (fst (dijkstra g start))) (node_value n) = Some Infinity
          \<and> Map_get (predecessors (fst (dijkstra g start))) (node_value n) = Some None)"
proof -
  let ?U = "Set_of (map node_value (nodes g))"
  let ?d = "Map_set (node_value start) (Fin 0) (init_distances (nodes g))"
  let ?p = "init_predecessors (nodes g)"
  have v: "valid_graph g" using assms(1) by (rule built_valid)
  with assms(3) have s: "start \<in> set (nodes g)" by (simp add: valid_hasNode)
  obtain d' p' where lp: "dijkstra_loop g ?U ?d ?p = Inr (d', p')"
    using assms(3,4)
    by (cases "dijkstra_loop g ?U ?d ?p")
       (auto simp: dijkstra_def Let_def split: error.splits)
  with assms(3) have r: "distances (fst (dijkstra g start)) = d'"
    "predecessors (fst (dijkstra g start)) = p'"
    by (simp_all add: dijkstra_def Let_def)
  from dijkstra_loop_inv[OF v assms(2) dijkstra_inv_init[OF v assms(2) s] lp]
  obtain U' where inv: "dijkstra_inv g start U' d' p'"
    and inf: "\<And>w. w \<in> set U' \<Longrightarrow> dist_at d' w = Infinity" by blast
  from inv have I0: "\<And>n. n \<in> set (nodes g) \<Longrightarrow> Map_has d' (node_value n)"
    and I2: "dist_at d' (node_value start) = Fin 0"
    and I4: "\<And>n. n \<in> set (nodes g) \<Longrightarrow> n \<notin> reachable g start \<Longrightarrow>
               dist_at d' (node_value n) = Infinity \<and> Map_get p' (node_value n) = Some None"
    and I7: "\<And>n es e. n \<in> set (nodes g) \<Longrightarrow> node_value n \<notin> set U' \<Longrightarrow>
               getNeighbors g n = Some es \<Longrightarrow> e \<in> set es \<Longrightarrow>
               dist_at d' (node_value (target e))
                 \<le> num_add (dist_at d' (node_value n)) (edge_weight e)"
    unfolding dijkstra_inv_def by blast+
  have get: "\<And>n. n \<in> set (nodes g) \<Longrightarrow> Map_get d' (node_value n) = Some (dist_at d' (node_value n))"
  proof -
    fix n assume "n \<in> set (nodes g)"
    from I0[OF this] obtain x where "Map_get d' (node_value n) = Some x"
      by (auto simp: Map_has_get)
    then show "Map_get d' (node_value n) = Some (dist_at d' (node_value n))"
      by (simp add: dist_at_def)
  qed
  have c1: "Map_get d' (node_value start) = Some (Fin 0)"
    using get[OF s] I2 by simp
  have c2: "\<forall>u es e. getNeighbors g u = Some es \<longrightarrow> e \<in> set es \<longrightarrow>
          (\<exists>du dv. Map_get d' (node_value u) = Some du
             \<and> Map_get d' (node_value (target e)) = Some dv
             \<and> dv \<le> num_add du (edge_weight e))"
  proof (intro allI impI)
    fix u es e assume es: "getNeighbors g u = Some es" and e: "e \<in> set es"
    from es have "hasNode g u" by (simp add: hasNode_getNeighbors)
    with v have u: "u \<in> set (nodes g)" by (simp add: valid_hasNode)
    from v es e have t: "target e \<in> set (nodes g)" by (auto simp: valid_graph_def)
    have "dist_at d' (node_value (target e))
            \<le> num_add (dist_at d' (node_value u)) (edge_weight e)"
    proof (cases "node_value u \<in> set U'")
      case True
      from inf[OF True] show ?thesis by (simp add: le_Infinity)
    next
      case False
      from I7[OF u False es e] show ?thesis .
    qed
    with get[OF u] get[OF t]
    show "\<exists>du dv. Map_get d' (node_value u) = Some du
             \<and> Map_get d' (node_value (target e)) = Some dv
             \<and> dv \<le> num_add du (edge_weight e)"
      by blast
  qed
  have c3: "\<forall>n. hasNode g n \<longrightarrow> n \<notin> reachable g start \<longrightarrow>
          Map_get d' (node_value n) = Some Infinity \<and> Map_get p' (node_value n) = Some None"
  proof (intro allI impI)
    fix n assume "hasNode g n" and nr: "n \<notin> reachable g start"
    with v have n: "n \<in> set (nodes g)" by (simp add: valid_hasNode)
    from I4[OF n nr] get[OF n]
    show "Map_get d' (node_value n) = Some Infinity \<and> Map_get p' (node_value n) = Some None"
      by simp
  qed
  from c1 c2 c3 show ?thesis unfolding r by blast
qed

lemma built_unreachable_scenario: "built unreachable_scenario"
  by (simp add: unreachable_scenario_def built.intros)

lemma unreachable_scenario_C: "node_C \<notin> reachable unreachable_scenario node_A"
proof -
  have a: "successors unreachable_scenario node_A = {node_B}" by code_simp
  have b: "successors unreachable_scenario node_B = {}" by code_simp
  have "reachable unreachable_scenario node_A \<subseteq> {node_A, node_B}"
    by (rule reachable_closed) (auto simp: a b)
  moreover have "node_C \<notin> {node_A, node_B}" by code_simp
  ultimately show ?thesis by blast
qed

theorem dijkstra_completed_run_witness:
  "dijkstra unreachable_scenario node_A =
     (\<lparr>distances = [(10, Fin 0), (20, Fin 3), (30, Infinity)],
       predecessors = [(10, None), (20, Some node_A), (30, None)]\<rparr>, [])
   \<and> Map_get (distances (fst (dijkstra unreachable_scenario node_A))) (node_value node_A)
      = Some (Fin 0)
   \<and> (\<exists>du dv. Map_get (distances (fst (dijkstra unreachable_scenario node_A)))
                 (node_value node_A) = Some du
         \<and> Map_get (distances (fst (dijkstra unreachable_scenario node_A)))
                 (node_value (target (GraphEdge node_B (Some 3)))) = Some dv
         \<and> dv \<le> num_add du (edge_weight (GraphEdge node_B (Some 3))))
   \<and> node_C \<notin> reachable unreachable_scenario node_A
   \<and> Map_get (distances (fst (dijkstra unreachable_scenario node_A))) (node_value node_C)
      = Some Infinity
   \<and> Map_get (predecessors (fst (dijkstra unreachable_scenario node_A))) (node_value node_C)
      = Some None"
proof -
  have h2: "unique_values unreachable_scenario" by code_simp
  have h3: "hasNode unreachable_scenario node_A" by code_simp
  have h4: "snd (dijkstra unreachable_scenario node_A) = []" by code_simp
  have e: "dijkstra unreachable_scenario node_A =
     (\<lparr>distances = [(10, Fin 0), (20, Fin 3), (30, Infinity)],
       predecessors = [(10, None), (20, Some node_A), (30, None)]\<rparr>, [])"
    by code_simp
  have n: "getNeighbors unreachable_scenario node_A = Some [GraphEdge node_B (Some 3)]"
    by code_simp
  have c: "hasNode unreachable_scenario node_C" by code_simp
  note t = dijkstra_completed_run[OF built_unreachable_scenario h2 h3 h4]
  from t have t1: "Map_get (distances (fst (dijkstra unreachable_scenario node_A)))
      (node_value node_A) = Some (Fin 0)" by blast
  have m: "GraphEdge node_B (Some 3) \<in> set [GraphEdge node_B (Some 3)]" by simp
  have t2: "\<exists>du dv. Map_get (distances (fst (dijkstra unreachable_scenario node_A)))
                 (node_value node_A) = Some du
         \<and> Map_get (distances (fst (dijkstra unreachable_scenario node_A)))
                 (node_value (target (GraphEdge node_B (Some 3)))) = Some dv
         \<and> dv \<le> num_add du (edge_weight (GraphEdge node_B (Some 3)))"
    by (rule t[THEN conjunct2, THEN conjunct1, rule_format, OF n m])
  from t c unreachable_scenario_C
  have t3: "Map_get (distances (fst (dijkstra unreachable_scenario node_A))) (node_value node_C)
      = Some Infinity
   \<and> Map_get (predecessors (fst (dijkstra unreachable_scenario node_A))) (node_value node_C)
      = Some None"
    by blast
  from e t1 t2 t3 unreachable_scenario_C show ?thesis by blast
qed

text \<open>
  C1 as stated, for every graph, fails where two nodes share a value: X and Y both have
  value 70, X has no outgoing edge and Y has an edge of weight 1 to Z. \<open>nodeMap\<close> sends 70
  to Y, so \<open>dijkstra(X)\<close> relaxes the edges of Y: Z, which no path from X reaches, gets
  distance 1 and predecessor Y.
\<close>

theorem dijkstra_duplicate_value:
  "hasNode duplicate_dijkstra_scenario node_X
   \<and> dijkstra duplicate_dijkstra_scenario node_X =
       (\<lparr>distances = [(70, Fin 0), (90, Fin 1)],
         predecessors = [(70, None), (90, Some node_Y)]\<rparr>, [])
   \<and> hasNode duplicate_dijkstra_scenario node_Z
   \<and> node_value node_Z = 90
   \<and> node_Z \<notin> reachable duplicate_dijkstra_scenario node_X"
proof -
  have a: "successors duplicate_dijkstra_scenario node_X = {}" by code_simp
  have "reachable duplicate_dijkstra_scenario node_X \<subseteq> {node_X}"
    by (rule reachable_closed) (auto simp: a)
  moreover have "node_Z \<notin> {node_X}" by code_simp
  ultimately have "node_Z \<notin> reachable duplicate_dijkstra_scenario node_X" by blast
  moreover have "hasNode duplicate_dijkstra_scenario node_X" by code_simp
  moreover have "hasNode duplicate_dijkstra_scenario node_Z" by code_simp
  moreover have "node_value node_Z = 90" by code_simp
  moreover have "dijkstra duplicate_dijkstra_scenario node_X =
       (\<lparr>distances = [(70, Fin 0), (90, Fin 1)],
         predecessors = [(70, None), (90, Some node_Y)]\<rparr>, [])" by code_simp
  ultimately show ?thesis by blast
qed

end
